theory Spec2Isabelle
  imports Main "HOL-Library.AList" "HOL-Library.Multiset"
begin

section \<open>Wire events\<close>

text \<open>
  The \<^verbatim>\<open>WebSocketMessage\<close> interface of \<^verbatim>\<open>server/routes.ts\<close> and of the client hook.
  Every field of a parsed JSON object may be absent, so every field is an option; the
  fields \<^verbatim>\<open>type\<close> and \<^verbatim>\<open>id\<close> are written \<open>type'\<close> and \<open>id'\<close>.
\<close>

record WebSocketMessage =
  type' :: "string option"
  messageId :: "string option"
  userId :: "string option"
  content :: "string option"
  channelId :: "string option"
  dmId :: "string option"
  timestamp :: "string option"
  status :: "string option"
  isTyping :: "bool option"
  lastSeen :: "string option"
  readBy :: "string list option"
  id' :: "string option"
  parentId :: "string option"

text \<open>JavaScript truthiness of an optional string: present and not the empty string.\<close>

definition truthy :: "string option \<Rightarrow> bool" where
  "truthy s = (case s of None \<Rightarrow> False | Some v \<Rightarrow> v \<noteq> [])"

text \<open>\<^verbatim>\<open>a || b\<close> on an optional string.\<close>

definition or_else :: "string option \<Rightarrow> string \<Rightarrow> string" where
  "or_else s d = (case s of None \<Rightarrow> d | Some v \<Rightarrow> if v = [] then d else v)"

text \<open>An object literal in which no field is set.\<close>

definition no_fields :: WebSocketMessage where
  "no_fields = \<lparr> type' = None, messageId = None, userId = None, content = None,
     channelId = None, dmId = None, timestamp = None, status = None, isTyping = None,
     lastSeen = None, readBy = None, id' = None, parentId = None \<rparr>"

text \<open>Decimal rendering of a non-negative integer, as a template literal renders it.\<close>

definition digit_char :: "nat \<Rightarrow> char" where
  "digit_char d = ''0123456789'' ! d"

function string_of_nat :: "nat \<Rightarrow> string" where
  "string_of_nat n =
     (if n < 10 then [digit_char n]
      else string_of_nat (n div 10) @ [digit_char (n mod 10)])"
  by pat_completeness auto

termination string_of_nat
  by (relation "measure (\<lambda>n. n)") auto

declare string_of_nat.simps [simp del]

section \<open>Client: the \<^verbatim>\<open>useWebSocket\<close> hook\<close>

record User =
  user_id :: string
  user_name :: string
  user_email :: string
  user_isOnline :: bool

definition mockUsers :: "User list" where
  "mockUsers =
     [ \<lparr> user_id = ''current'', user_name = ''You'', user_email = ''you@example.com'',
         user_isOnline = True \<rparr>,
       \<lparr> user_id = ''jane'', user_name = ''Jane Smith'', user_email = ''jane@example.com'',
         user_isOnline = True \<rparr>,
       \<lparr> user_id = ''bob'', user_name = ''Bob Wilson'', user_email = ''bob@example.com'',
         user_isOnline = False \<rparr> ]"

text \<open>\<^verbatim>\<open>mockUsers[0]\<close>\<close>

definition mockUsers0 :: User where
  "mockUsers0 = mockUsers ! 0"

text \<open>The client's \<^verbatim>\<open>Message\<close>; its fields carry the prefix \<open>msg_\<close>.\<close>

record Message =
  msg_id :: string
  msg_content :: string
  msg_sender :: User
  msg_timestamp :: string
  msg_channelId :: "string option"
  msg_dmId :: "string option"
  msg_reactions :: "(string \<times> User list) list"
  msg_readBy :: "string list"
  msg_parentId :: "string option"

definition startsWith :: "string \<Rightarrow> string \<Rightarrow> bool" where
  "startsWith s p = (take (length p) s = p)"

text \<open>
  \<^verbatim>\<open>list.sort((a, b) => new Date(a.timestamp).getTime() - new Date(b.timestamp).getTime())\<close>.
  The parser of date strings is the parameter \<open>getTime\<close>, which gives every timestamp a
  time in milliseconds (the server writes them with \<^verbatim>\<open>toISOString\<close>); the sort is stable.
  A timestamp that does not parse makes the comparator give \<^verbatim>\<open>NaN\<close>; the order of such a
  list is not described here.
\<close>

definition sort_by_time :: "(string \<Rightarrow> int) \<Rightarrow> Message list \<Rightarrow> Message list" where
  "sort_by_time getTime ms = sort_key (\<lambda>m. getTime (msg_timestamp m)) ms"

text \<open>The filter both handlers apply: drop every placeholder with the given content.\<close>

definition drop_placeholders :: "string \<Rightarrow> Message list \<Rightarrow> Message list" where
  "drop_placeholders c prev =
     filter (\<lambda>m. if startsWith (msg_id m) ''temp_'' then msg_content m \<noteq> c else True) prev"

text \<open>\<^verbatim>\<open>mockUsers.find(u => u.id === data.userId) || mockUsers[0]\<close>\<close>

definition find_sender :: "string \<Rightarrow> User" where
  "find_sender uid = (case find (\<lambda>u. user_id u = uid) mockUsers of
                        Some u \<Rightarrow> u | None \<Rightarrow> mockUsers0)"

text \<open>
  \<^verbatim>\<open>case 'new_message'\<close> of \<^verbatim>\<open>socket.onmessage\<close>. \<open>now\<close> is the value of
  \<^verbatim>\<open>new Date().toISOString()\<close> at the time of the call.
\<close>

definition on_new_message ::
  "(string \<Rightarrow> int) \<Rightarrow> string \<Rightarrow> WebSocketMessage \<Rightarrow> Message list \<Rightarrow> Message list" where
  "on_new_message getTime now d prev =
     (if \<not> truthy (content d) \<or> \<not> truthy (userId d) \<or> \<not> truthy (id' d) then prev
      else
        let newMessage = \<lparr> msg_id = the (id' d), msg_content = the (content d),
              msg_sender = find_sender (the (userId d)),
              msg_timestamp = or_else (timestamp d) now,
              msg_channelId = channelId d, msg_dmId = dmId d, msg_reactions = [],
              msg_readBy = (case readBy d of None \<Rightarrow> [] | Some r \<Rightarrow> r),
              msg_parentId = parentId d \<rparr>
        in if list_ex (\<lambda>m. msg_id m = msg_id newMessage) prev then prev
           else sort_by_time getTime (drop_placeholders (msg_content newMessage) prev @ [newMessage]))"

text \<open>The entry \<^verbatim>\<open>case 'message_confirmed'\<close> builds.\<close>

definition confirmedMessage :: "string \<Rightarrow> WebSocketMessage \<Rightarrow> Message" where
  "confirmedMessage now d =
     \<lparr> msg_id = the (id' d), msg_content = the (content d), msg_sender = mockUsers0,
       msg_timestamp = or_else (timestamp d) now,
       msg_channelId = channelId d, msg_dmId = dmId d, msg_reactions = [],
       msg_readBy = [user_id mockUsers0], msg_parentId = parentId d \<rparr>"

text \<open>\<^verbatim>\<open>case 'message_confirmed'\<close> of \<^verbatim>\<open>socket.onmessage\<close>.\<close>

definition on_message_confirmed ::
  "(string \<Rightarrow> int) \<Rightarrow> string \<Rightarrow> WebSocketMessage \<Rightarrow> Message list \<Rightarrow> Message list" where
  "on_message_confirmed getTime now d prev =
     (if \<not> truthy (id' d) \<or> \<not> truthy (content d) then prev
      else sort_by_time getTime (drop_placeholders (the (content d)) prev @ [confirmedMessage now d]))"

text \<open>
  \<^verbatim>\<open>sendMessage\<close>: \<open>isOpen\<close> says that the socket exists and is in state OPEN,
  \<open>sendThrows\<close> that \<^verbatim>\<open>ws.send\<close> throws, \<open>nowMs\<close> is \<^verbatim>\<open>Date.now()\<close> and \<open>now\<close> is
  \<^verbatim>\<open>new Date().toISOString()\<close>. The result is the returned flag and the message list.
  The set \<^verbatim>\<open>pendingMessages\<close> of the hook is written by the handlers and read by none; it
  is left out.
\<close>

definition tempMessage :: "nat \<Rightarrow> string \<Rightarrow> WebSocketMessage \<Rightarrow> Message" where
  "tempMessage nowMs now message =
     \<lparr> msg_id = ''temp_'' @ string_of_nat nowMs, msg_content = the (content message),
       msg_sender = mockUsers0, msg_timestamp = now,
       msg_channelId = channelId message, msg_dmId = dmId message, msg_reactions = [],
       msg_readBy = [user_id mockUsers0], msg_parentId = None \<rparr>"

definition sendMessage ::
  "(string \<Rightarrow> int) \<Rightarrow> bool \<Rightarrow> bool \<Rightarrow> nat \<Rightarrow> string \<Rightarrow> WebSocketMessage \<Rightarrow> Message list
     \<Rightarrow> bool \<times> Message list" where
  "sendMessage getTime isOpen sendThrows nowMs now message prev =
     (if \<not> isOpen then (False, prev)
      else
        let msgs = (if type' message = Some ''new_message'' \<and> truthy (content message)
                    then sort_by_time getTime (prev @ [tempMessage nowMs now message])
                    else prev)
        in (\<not> sendThrows, msgs))"

subsection \<open>Reconnect\<close>

text \<open>\<^verbatim>\<open>Math.min(1000 * Math.pow(2, retryCount), 10000)\<close>\<close>

definition nextRetry :: "nat \<Rightarrow> nat" where
  "nextRetry retryCount = min (1000 * 2 ^ retryCount) 10000"

text \<open>
  The effect \<^verbatim>\<open>useEffect(..., [retryCount, reconnectTimer])\<close>. Each run of the effect is a
  closure: it holds the \<^verbatim>\<open>retryCount\<close> and \<^verbatim>\<open>reconnectTimer\<close> of the render it belongs
  to, and its own flag \<^verbatim>\<open>isDestroyed\<close>. The handlers of a socket and the callback of a
  timer belong to the closure that made them.
\<close>

record effect_closure =
  c_retryCount :: nat
  c_reconnectTimer :: "nat option"
  c_isDestroyed :: bool

text \<open>
  The hook: the React state, the runs of the effect in order (the last is the live one), the
  pending timers (handle, delay, owning closure), the next timer handle, and two traces:
  the delays passed to \<^verbatim>\<open>setTimeout\<close> and the number of sockets \<^verbatim>\<open>connect\<close> opened.
\<close>

record hook =
  retryCount :: nat
  reconnectTimer :: "nat option"
  isConnected :: bool
  closures :: "effect_closure list"
  timers :: "(nat \<times> nat \<times> nat) list"
  next_timer :: nat
  delays :: "nat list"
  connects :: nat

text \<open>The closure of the \<open>k\<close>-th run of the effect.\<close>

definition closure_at :: "hook \<Rightarrow> nat \<Rightarrow> effect_closure option" where
  "closure_at s k = (if k < length (closures s) then Some (closures s ! k) else None)"

text \<open>\<^verbatim>\<open>clearTimeout(t)\<close>\<close>

definition clearTimeout :: "nat \<Rightarrow> hook \<Rightarrow> hook" where
  "clearTimeout t s = s \<lparr> timers := filter (\<lambda>(h, d, k). h \<noteq> t) (timers s) \<rparr>"

text \<open>\<^verbatim>\<open>connect()\<close> in closure \<open>k\<close>: \<^verbatim>\<open>if (isDestroyed) return\<close>, then a new socket.\<close>

definition connect :: "nat \<Rightarrow> hook \<Rightarrow> hook" where
  "connect k s =
     (case closure_at s k of
        None \<Rightarrow> s
      | Some cl \<Rightarrow> if c_isDestroyed cl then s else s \<lparr> connects := connects s + 1 \<rparr>)"

text \<open>The body of the effect: a new closure over the current state, then \<^verbatim>\<open>connect()\<close>.\<close>

definition run_effect :: "hook \<Rightarrow> hook" where
  "run_effect s =
     connect (length (closures s))
       (s \<lparr> closures := closures s
               @ [\<lparr> c_retryCount = retryCount s, c_reconnectTimer = reconnectTimer s,
                    c_isDestroyed = False \<rparr>] \<rparr>)"

text \<open>
  The function the effect returns, for closure \<open>k\<close>: \<^verbatim>\<open>isDestroyed = true\<close>, the timer the
  closure holds is cleared, the socket is closed (its \<^verbatim>\<open>onclose\<close> then finds
  \<^verbatim>\<open>isDestroyed\<close> set).
\<close>

definition cleanup :: "nat \<Rightarrow> hook \<Rightarrow> hook" where
  "cleanup k s =
     (case closure_at s k of
        None \<Rightarrow> s
      | Some cl \<Rightarrow>
          let s1 = s \<lparr> closures := (closures s) [k := cl \<lparr> c_isDestroyed := True \<rparr>] \<rparr>
          in (case c_reconnectTimer cl of None \<Rightarrow> s1 | Some t \<Rightarrow> clearTimeout t s1))"

text \<open>The index of the live closure.\<close>

definition live :: "hook \<Rightarrow> nat" where
  "live s = length (closures s) - 1"

text \<open>
  What React does after a handler has set state: when a dependency of the effect differs
  from the one the live closure holds, the cleanup of that closure runs and then the effect.
\<close>

definition rerender :: "hook \<Rightarrow> hook" where
  "rerender s =
     (case closure_at s (live s) of
        None \<Rightarrow> s
      | Some cl \<Rightarrow>
          if c_retryCount cl = retryCount s \<and> c_reconnectTimer cl = reconnectTimer s then s
          else run_effect (cleanup (live s) s))"

text \<open>The hook after its first render; timer handles are positive.\<close>

definition mount :: hook where
  "mount = run_effect \<lparr> retryCount = 0, reconnectTimer = None, isConnected = False,
     closures = [], timers = [], next_timer = 1, delays = [], connects = 0 \<rparr>"

text \<open>\<^verbatim>\<open>setTimeout(callback, d)\<close> in closure \<open>k\<close>; the handle is \<open>next_timer\<close>.\<close>

definition setTimeout :: "nat \<Rightarrow> nat \<Rightarrow> hook \<Rightarrow> hook" where
  "setTimeout k d s =
     s \<lparr> timers := timers s @ [(next_timer s, d, k)], next_timer := next_timer s + 1,
         delays := delays s @ [d] \<rparr>"

text \<open>
  \<^verbatim>\<open>socket.onclose\<close> of a socket of closure \<open>k\<close>, and the render that follows. The test
  \<^verbatim>\<open>retryCount < 5\<close> reads the closure's \<^verbatim>\<open>retryCount\<close>. \<^verbatim>\<open>setWs(null)\<close> and
  \<^verbatim>\<open>pendingMessages.clear()\<close> write state that the effect does not depend on.
\<close>

definition socket_onclose :: "nat \<Rightarrow> hook \<Rightarrow> hook" where
  "socket_onclose k s =
     (case closure_at s k of
        None \<Rightarrow> s
      | Some cl \<Rightarrow>
          if c_isDestroyed cl then s
          else
            let s1 = s \<lparr> isConnected := False \<rparr>
            in rerender
                 (if c_retryCount cl < 5
                  then (setTimeout k (nextRetry (c_retryCount cl)) s1)
                         \<lparr> reconnectTimer := Some (next_timer s1) \<rparr>
                  else s1))"

text \<open>
  The timer with handle \<open>t\<close> fires:
  \<^verbatim>\<open>if (!isDestroyed) { setRetryCount(prev => prev + 1); connect(); }\<close> in the closure that
  set it, and the render that follows.
\<close>

definition timer_callback :: "nat \<Rightarrow> hook \<Rightarrow> hook" where
  "timer_callback t s =
     (case find (\<lambda>(h, d, k). h = t) (timers s) of
        None \<Rightarrow> s
      | Some (h, d, k) \<Rightarrow>
          let s1 = clearTimeout t s
          in (case closure_at s1 k of
                None \<Rightarrow> s1
              | Some cl \<Rightarrow>
                  if c_isDestroyed cl then s1
                  else rerender (connect k (s1 \<lparr> retryCount := retryCount s1 + 1 \<rparr>))))"

text \<open>
  What happens to the hook from outside while no connection succeeds: a socket of closure
  \<open>k\<close> closes, a timer fires.
\<close>

datatype hook_event = SocketClosed nat | TimerFires nat

fun hook_step :: "hook_event \<Rightarrow> hook \<Rightarrow> hook" where
  "hook_step (SocketClosed k) s = socket_onclose k s"
| "hook_step (TimerFires t) s = timer_callback t s"

fun hook_run :: "hook_event list \<Rightarrow> hook \<Rightarrow> hook" where
  "hook_run [] s = s"
| "hook_run (e # es) s = hook_run es (hook_step e s)"

section \<open>Server: the WebSocket hub of \<^verbatim>\<open>registerRoutes\<close>\<close>

text \<open>
  A connection (a \<^verbatim>\<open>WebSocket\<close> object) is a number. What the handlers cannot decide is
  the \<open>world\<close>: whether a socket is in state OPEN, whether \<^verbatim>\<open>send\<close> on it throws, and
  the values the clock and the random generator give at the \<open>k\<close>-th read. A handler runs
  without interruption, so the state of a socket is fixed while it runs.
\<close>

type_synonym conn = nat

record world =
  readyState_open :: "conn \<Rightarrow> bool"
  send_throws :: "conn \<Rightarrow> bool"
  toISOString_at :: "nat \<Rightarrow> string"
  Date_now_at :: "nat \<Rightarrow> nat"
  random36_at :: "nat \<Rightarrow> string"
  durable_append :: "string \<times> string \<times> string option \<times> string option \<times> string option
                       \<Rightarrow> string \<times> string"

text \<open>
  Modelled from the spec: \<open>durable_append\<close> is the external store's durable-append
  operation, from (content, sender id, channel id, dm id, parent id) to the canonical id
  and timestamp it assigns. The store's code is not among the sources.
\<close>

text \<open>
  The hub's variables: the \<^verbatim>\<open>Map\<close>s are association lists in insertion order; \<open>sent\<close> is
  the trace of the frames handed to the transports; \<open>ticks\<close> counts the reads of the
  clock and of the random generator.
\<close>

record hub =
  messagesInMemory :: "WebSocketMessage list"
  clients :: "(conn \<times> string) list"
  userPresenceInMemory :: "(string \<times> string \<times> string) list"
  pendingMessages :: "(string \<times> WebSocketMessage) list"
  sent :: "(conn \<times> WebSocketMessage) list"
  ticks :: nat

definition hub_init :: hub where
  "hub_init = \<lparr> messagesInMemory = [], clients = [], userPresenceInMemory = [],
     pendingMessages = [], sent = [], ticks = 0 \<rparr>"

text \<open>The presence event \<^verbatim>\<open>cleanupClient\<close> broadcasts.\<close>

definition offline_event :: "string \<Rightarrow> string \<Rightarrow> WebSocketMessage" where
  "offline_event u ts = no_fields \<lparr> type' := Some ''presence_update'', userId := Some u,
     status := Some ''offline'', timestamp := Some ts \<rparr>"

text \<open>The hub after \<^verbatim>\<open>clients.delete(ws)\<close> and \<^verbatim>\<open>userPresenceInMemory.set(userId, ...)\<close>.\<close>

definition evicted :: "world \<Rightarrow> conn \<Rightarrow> string \<Rightarrow> hub \<Rightarrow> hub" where
  "evicted w c u h = h \<lparr> clients := AList.delete c (clients h),
       userPresenceInMemory :=
         AList.update u (''offline'', toISOString_at w (ticks h)) (userPresenceInMemory h),
       ticks := ticks h + 2 \<rparr>"

text \<open>
  \<^verbatim>\<open>broadcastMessage\<close> and \<^verbatim>\<open>cleanupClient\<close> call each other. \<open>forEach_client\<close> is the
  loop \<^verbatim>\<open>clients.forEach\<close>: it walks the keys present when the loop starts and skips a
  key that has been deleted since.
\<close>

function broadcastMessage :: "world \<Rightarrow> WebSocketMessage \<Rightarrow> conn option \<Rightarrow> hub \<Rightarrow> hub"
  and forEach_client ::
    "world \<Rightarrow> WebSocketMessage \<Rightarrow> conn option \<Rightarrow> conn list \<Rightarrow> hub \<Rightarrow> hub"
  and cleanupClient :: "world \<Rightarrow> conn \<Rightarrow> hub \<Rightarrow> hub"
where
  "broadcastMessage w m excludeWs h = forEach_client w m excludeWs (map fst (clients h)) h"
| "forEach_client w m excludeWs [] h = h"
| "forEach_client w m excludeWs (c # cs) h =
     forEach_client w m excludeWs cs
       (if c \<in> fst ` set (clients h) \<and> Some c \<noteq> excludeWs \<and> readyState_open w c
        then (if send_throws w c then cleanupClient w c h
              else h \<lparr> sent := sent h @ [(c, m)] \<rparr>)
        else h)"
| "cleanupClient w c h =
     (case map_of (clients h) c of
        None \<Rightarrow> h
      | Some u \<Rightarrow>
          if u = [] then h
          else broadcastMessage w (offline_event u (toISOString_at w (ticks h + 1))) None
                 (evicted w c u h))"
  by pat_completeness auto

lemma length_delete_le: "length (AList.delete c xs) \<le> length xs"
  by (simp add: AList.delete_eq)

lemma length_delete_less:
  assumes "map_of xs c = Some u"
  shows "length (AList.delete c xs) < length xs"
proof -
  from assms have "(c, u) \<in> set xs" by (rule map_of_SomeD)
  then show ?thesis
    unfolding AList.delete_eq
    using length_filter_less [of "(c, u)" xs "\<lambda>(k', _). c \<noteq> k'"] by simp
qed

lemma clients_shrink_partial:
  "broadcastMessage_forEach_client_cleanupClient_dom (Inl (w, m, ex, h)) \<Longrightarrow>
     length (clients (broadcastMessage w m ex h)) \<le> length (clients h)"
  "broadcastMessage_forEach_client_cleanupClient_dom (Inr (Inl (w, m, ex, cs, h))) \<Longrightarrow>
     length (clients (forEach_client w m ex cs h)) \<le> length (clients h)"
  "broadcastMessage_forEach_client_cleanupClient_dom (Inr (Inr (w, c, h))) \<Longrightarrow>
     length (clients (cleanupClient w c h)) \<le> length (clients h)"
proof (induction w m ex h and w m ex cs h and w c h
       rule: broadcastMessage_forEach_client_cleanupClient.pinduct)
  case (1 w m excludeWs h)
  then show ?case by (simp add: broadcastMessage.psimps)
next
  case (2 w m excludeWs h)
  then show ?case by (simp add: forEach_client.psimps)
next
  case (3 w m excludeWs c cs h)
  show ?case
  proof (cases "c \<in> fst ` set (clients h) \<and> Some c \<noteq> excludeWs \<and> readyState_open w c")
    case True
    show ?thesis
    proof (cases "send_throws w c")
      case t: True
      from "3.IH"(1) [OF True t] "3.IH"(2) True t "3.hyps" show ?thesis
        by (simp add: forEach_client.psimps)
    next
      case f: False
      from "3.IH"(2) True f "3.hyps" show ?thesis
        by (simp add: forEach_client.psimps)
    qed
  next
    case False
    then have "(if c \<in> fst ` set (clients h) \<and> Some c \<noteq> excludeWs \<and> readyState_open w c
        then (if send_throws w c then cleanupClient w c h
              else h \<lparr> sent := sent h @ [(c, m)] \<rparr>)
        else h) = h"
      by (simp only: if_False)
    with "3.IH"(2) "3.hyps" show ?thesis
      by (simp only: forEach_client.psimps)
  qed
next
  case (4 w c h)
  show ?case
  proof (cases "map_of (clients h) c")
    case None
    with "4.hyps" show ?thesis by (simp add: cleanupClient.psimps)
  next
    case (Some u)
    show ?thesis
    proof (cases "u = []")
      case True
      with Some "4.hyps" show ?thesis by (simp add: cleanupClient.psimps)
    next
      case False
      from "4.IH" [OF Some False] have
        "length (clients (broadcastMessage w (offline_event u (toISOString_at w (ticks h + 1))) None
           (evicted w c u h))) \<le> length (clients (evicted w c u h))" .
      also have "\<dots> \<le> length (clients h)"
        by (simp add: evicted_def length_delete_le)
      finally show ?thesis using Some False "4.hyps" by (simp add: cleanupClient.psimps)
    qed
  qed
qed

text \<open>
  Every eviction removes a registered connection, and the loop inside one broadcast gets
  shorter: the registry's size, then the kind of call, then the keys left to visit.
\<close>

termination broadcastMessage
proof (relation "(\<lambda>x. case x of
          Inl (w, m, ex, h) \<Rightarrow> length (clients h)
        | Inr (Inl (w, m, ex, cs, h)) \<Rightarrow> length (clients h)
        | Inr (Inr (w, c, h)) \<Rightarrow> length (clients h))
      <*mlex*> (\<lambda>x. case x of
          Inl (w, m, ex, h) \<Rightarrow> 2
        | Inr (Inl (w, m, ex, cs, h)) \<Rightarrow> (1::nat)
        | Inr (Inr (w, c, h)) \<Rightarrow> 0)
      <*mlex*> (\<lambda>x. case x of
          Inl (w, m, ex, h) \<Rightarrow> 0
        | Inr (Inl (w, m, ex, cs, h)) \<Rightarrow> length cs
        | Inr (Inr (w, c, h)) \<Rightarrow> 0)
      <*mlex*> {}", goal_cases)
  case 1
  show ?case by (simp add: wf_mlex)
next
  case (2 w m excludeWs h)
  show ?case by (simp add: mlex_prod_def)
next
  case (3 w m excludeWs c cs h)
  then show ?case by (simp add: mlex_prod_def)
next
  case (4 w m excludeWs c cs h)
  let ?go = "c \<in> fst ` set (clients h) \<and> Some c \<noteq> excludeWs \<and> readyState_open w c"
  let ?h' = "if ?go then (if send_throws w c then cleanupClient w c h
                          else h \<lparr> sent := sent h @ [(c, m)] \<rparr>) else h"
  have "length (clients ?h') \<le> length (clients h)"
  proof (cases "?go \<and> send_throws w c")
    case True
    with 4 have "broadcastMessage_forEach_client_cleanupClient_dom (Inr (Inr (w, c, h)))"
      by simp
    from clients_shrink_partial(3) [OF this] True show ?thesis by simp
  next
    case False
    then show ?thesis by auto
  qed
  then show ?case by (auto simp add: mlex_prod_def split: if_splits)
next
  case (5 w c h x2)
  then show ?case
    by (simp add: mlex_prod_def evicted_def length_delete_less)
qed

declare broadcastMessage.simps [simp del] forEach_client.simps [simp del]
  cleanupClient.simps [simp del]

text \<open>\<^verbatim>\<open>ws.on('close')\<close> and \<^verbatim>\<open>ws.on('error')\<close>.\<close>

definition on_close :: "world \<Rightarrow> conn \<Rightarrow> hub \<Rightarrow> hub" where
  "on_close w ws h = cleanupClient w ws h"

text \<open>
  \<^verbatim>\<open>`msg_${Date.now()}_${Math.random().toString(36).slice(2)}`\<close>, with the clock read at
  tick \<open>t\<close> and the random generator at tick \<open>t + 1\<close>.
\<close>

definition messageId_at :: "world \<Rightarrow> nat \<Rightarrow> string" where
  "messageId_at w t = ''msg_'' @ string_of_nat (Date_now_at w t) @ ''_'' @ random36_at w (t + 1)"

text \<open>\<^verbatim>\<open>{ ...message, id: messageId, timestamp, readBy: [message.userId], parentId: message.parentId }\<close>\<close>

definition newMessage_of :: "string \<Rightarrow> string \<Rightarrow> WebSocketMessage \<Rightarrow> WebSocketMessage" where
  "newMessage_of msgId ts message =
     message \<lparr> id' := Some msgId, timestamp := Some ts,
               readBy := Some [the (userId message)], parentId := parentId message \<rparr>"

text \<open>The \<^verbatim>\<open>message_confirmed\<close> reply.\<close>

definition confirmation :: "string \<Rightarrow> string \<Rightarrow> WebSocketMessage \<Rightarrow> WebSocketMessage" where
  "confirmation msgId ts message =
     no_fields \<lparr> type' := Some ''message_confirmed'', id' := Some msgId,
       content := content message, channelId := channelId message, dmId := dmId message,
       parentId := parentId message, timestamp := Some ts \<rparr>"

text \<open>
  \<^verbatim>\<open>case 'new_message'\<close> of \<^verbatim>\<open>ws.on('message')\<close>; \<open>ts\<close> is the handler's \<^verbatim>\<open>timestamp\<close>.
  The \<^verbatim>\<open>catch\<close> is reached when \<^verbatim>\<open>ws.send\<close> of the confirmation throws; the broadcast
  catches its own failures.
\<close>

definition case_new_message :: "world \<Rightarrow> conn \<Rightarrow> WebSocketMessage \<Rightarrow> string \<Rightarrow> hub \<Rightarrow> hub" where
  "case_new_message w ws message ts h =
     (if \<not> truthy (content message) then h
      else
        let msgId = messageId_at w (ticks h);
            newMessage = newMessage_of msgId ts message;
            h1 = h \<lparr> messagesInMemory := messagesInMemory h @ [newMessage],
                     pendingMessages := AList.update msgId newMessage (pendingMessages h),
                     ticks := ticks h + 2 \<rparr>
        in if send_throws w ws
           then h1 \<lparr> messagesInMemory := butlast (messagesInMemory h1),
                     pendingMessages := AList.delete msgId (pendingMessages h1) \<rparr>
           else
             let h2 = broadcastMessage w newMessage (Some ws)
                        (h1 \<lparr> sent := sent h1 @ [(ws, confirmation msgId ts message)] \<rparr>)
             in h2 \<lparr> pendingMessages := AList.delete msgId (pendingMessages h2) \<rparr>)"

text \<open>\<^verbatim>\<open>case 'presence_update'\<close>\<close>

definition case_presence_update ::
  "world \<Rightarrow> conn \<Rightarrow> WebSocketMessage \<Rightarrow> string \<Rightarrow> hub \<Rightarrow> hub" where
  "case_presence_update w ws message ts h =
     (if \<not> truthy (status message) then h
      else broadcastMessage w
             (no_fields \<lparr> type' := Some ''presence_update'', userId := userId message,
                status := status message, lastSeen := Some ts, timestamp := Some ts \<rparr>)
             None
             (h \<lparr> userPresenceInMemory :=
                    AList.update (the (userId message)) (the (status message), ts)
                      (userPresenceInMemory h) \<rparr>))"

text \<open>\<^verbatim>\<open>case 'typing_indicator'\<close>\<close>

definition case_typing_indicator ::
  "world \<Rightarrow> conn \<Rightarrow> WebSocketMessage \<Rightarrow> string \<Rightarrow> hub \<Rightarrow> hub" where
  "case_typing_indicator w ws message ts h =
     broadcastMessage w
       (no_fields \<lparr> type' := Some ''typing_indicator'', userId := userId message,
          channelId := channelId message, dmId := dmId message,
          isTyping := isTyping message, timestamp := Some ts \<rparr>)
       (Some ws) h"

text \<open>The \<^verbatim>\<open>switch (message.type)\<close>.\<close>

definition dispatch :: "world \<Rightarrow> conn \<Rightarrow> WebSocketMessage \<Rightarrow> string \<Rightarrow> hub \<Rightarrow> hub" where
  "dispatch w ws message ts h =
     (if type' message = Some ''new_message'' then case_new_message w ws message ts h
      else if type' message = Some ''presence_update'' then case_presence_update w ws message ts h
      else if type' message = Some ''typing_indicator'' then case_typing_indicator w ws message ts h
      else broadcastMessage w message (Some ws) h)"

text \<open>\<^verbatim>\<open>clients.set(ws, message.userId)\<close>\<close>

definition admit :: "conn \<Rightarrow> string \<Rightarrow> hub \<Rightarrow> hub" where
  "admit ws u h = h \<lparr> clients := AList.update ws u (clients h) \<rparr>"

text \<open>
  \<^verbatim>\<open>ws.on('message')\<close>. The argument is the result of \<^verbatim>\<open>JSON.parse\<close>, \<open>None\<close> when it
  throws.
\<close>

definition on_message :: "world \<Rightarrow> conn \<Rightarrow> WebSocketMessage option \<Rightarrow> hub \<Rightarrow> hub" where
  "on_message w ws parsed h =
     (case parsed of
        None \<Rightarrow> h
      | Some message \<Rightarrow>
          let ts = toISOString_at w (ticks h);
              h0 = h \<lparr> ticks := ticks h + 1 \<rparr>
          in if \<not> truthy (type' message) \<or> \<not> truthy (userId message) then h0
             else dispatch w ws message ts (admit ws (the (userId message)) h0))"

text \<open>The frames a run of a handler hands to the transports, from the hub before and after.\<close>

definition new_sends :: "hub \<Rightarrow> hub \<Rightarrow> (conn \<times> WebSocketMessage) list" where
  "new_sends h h' = drop (length (sent h)) (sent h')"

text \<open>
  \<^verbatim>\<open>content.trim()\<close>, with which the pages test a message before they send it, on ASCII
  white space.
\<close>

definition is_space :: "char \<Rightarrow> bool" where
  "is_space ch = (ch \<in> set [CHR '' '', CHR 0x09, CHR 0x0A, CHR 0x0B, CHR 0x0C, CHR 0x0D])"

definition trim :: "string \<Rightarrow> string" where
  "trim s = rev (dropWhile is_space (rev (dropWhile is_space s)))"

section \<open>Notions the properties are stated with\<close>

text \<open>A connection is registered when it is a key of \<^verbatim>\<open>clients\<close>.\<close>

definition registered :: "hub \<Rightarrow> conn \<Rightarrow> bool" where
  "registered h c = (c \<in> fst ` set (clients h))"

text \<open>
  From \<open>h\<close> to \<open>h'\<close> the registry only loses entries, and only of connections whose
  \<^verbatim>\<open>send\<close> throws or that are in \<open>X\<close>.
\<close>

definition only_evicts :: "world \<Rightarrow> conn set \<Rightarrow> hub \<Rightarrow> hub \<Rightarrow> bool" where
  "only_evicts w X h h' =
     (\<forall>c. map_of (clients h') c = map_of (clients h) c
          \<or> (map_of (clients h') c = None \<and> (send_throws w c \<or> c \<in> X)))"

text \<open>
  The connections a broadcast with exclusion \<open>ex\<close> delivers to: registered, not excluded,
  OPEN, and \<^verbatim>\<open>send\<close> does not throw.
\<close>

definition target :: "world \<Rightarrow> conn option \<Rightarrow> hub \<Rightarrow> conn \<Rightarrow> bool" where
  "target w ex h c =
     (c \<in> fst ` set (clients h) \<and> Some c \<noteq> ex \<and> readyState_open w c \<and> \<not> send_throws w c)"

text \<open>The frames of a trace whose event satisfies \<open>P\<close>, and the frames of one fan-out.\<close>

definition sent_where ::
  "(WebSocketMessage \<Rightarrow> bool) \<Rightarrow> (conn \<times> WebSocketMessage) list \<Rightarrow> (conn \<times> WebSocketMessage) list" where
  "sent_where P xs = filter (\<lambda>(c, e). P e) xs"

definition copies :: "(WebSocketMessage \<Rightarrow> bool) \<Rightarrow> WebSocketMessage \<Rightarrow> conn list
    \<Rightarrow> (conn \<times> WebSocketMessage) list" where
  "copies P m cs = (if P m then map (\<lambda>c. (c, m)) cs else [])"

text \<open>An event equal to the one an eviction broadcasts for its own user and timestamp.\<close>

definition is_offline_notice :: "WebSocketMessage \<Rightarrow> bool" where
  "is_offline_notice e =
     (case (userId e, timestamp e) of
        (Some u, Some ts) \<Rightarrow> e = offline_event u ts
      | _ \<Rightarrow> False)"

text \<open>
  Every registered user id is a non-empty string, and no connection is registered twice:
  \<^verbatim>\<open>clients.set\<close> is reached only with a truthy \<^verbatim>\<open>userId\<close>, and a \<^verbatim>\<open>Map\<close> has one entry
  for a key.
\<close>

definition users_truthy :: "hub \<Rightarrow> bool" where
  "users_truthy h = list_all (\<lambda>(c, u). u \<noteq> []) (clients h)"

definition hub_ok :: "hub \<Rightarrow> bool" where
  "hub_ok h = (distinct (map fst (clients h)) \<and> users_truthy h)"

text \<open>A \<^verbatim>\<open>new_message\<close> event that passes the checks of \<^verbatim>\<open>ws.on('message')\<close>.\<close>

definition valid_new_message :: "WebSocketMessage \<Rightarrow> bool" where
  "valid_new_message message =
     (type' message = Some ''new_message'' \<and> truthy (userId message) \<and> truthy (content message))"

text \<open>The hub as the switch finds it: the clock read once, the connection admitted.\<close>

definition admitted :: "conn \<Rightarrow> WebSocketMessage \<Rightarrow> hub \<Rightarrow> hub" where
  "admitted ws message h = admit ws (the (userId message)) (h \<lparr> ticks := ticks h + 1 \<rparr>)"

text \<open>Sample worlds, hubs and events.\<close>

definition w_all_open :: world where
  "w_all_open = \<lparr> readyState_open = (\<lambda>c. True), send_throws = (\<lambda>c. False),
     toISOString_at = (\<lambda>k. ''T''), Date_now_at = (\<lambda>k. 5), random36_at = (\<lambda>k. ''k3''),
     durable_append = (\<lambda>x. (''1'', ''S'')) \<rparr>"

definition w_origin_fails :: world where
  "w_origin_fails = w_all_open \<lparr> send_throws := (\<lambda>c. c = 0) \<rparr>"

definition w_bob_fails :: world where
  "w_bob_fails = w_all_open \<lparr> send_throws := (\<lambda>c. c = 1) \<rparr>"

definition hub_two :: hub where
  "hub_two = hub_init \<lparr> clients := [(0, ''jane''), (1, ''bob'')] \<rparr>"

definition hub_three :: hub where
  "hub_three = hub_init \<lparr> clients := [(0, ''jane''), (1, ''bob''), (2, ''ann'')] \<rparr>"

definition m_hi :: WebSocketMessage where
  "m_hi = no_fields \<lparr> type' := Some ''new_message'', userId := Some ''jane'',
     content := Some ''hi'', channelId := Some ''1'' \<rparr>"

definition m_blank :: WebSocketMessage where
  "m_blank = no_fields \<lparr> type' := Some ''new_message'', userId := Some ''jane'',
     content := Some ''   '', channelId := Some ''1'' \<rparr>"

definition m_no_content :: WebSocketMessage where
  "m_no_content = no_fields \<lparr> type' := Some ''new_message'', userId := Some ''jane'',
     content := Some '''', channelId := Some ''1'' \<rparr>"

definition m_typing :: WebSocketMessage where
  "m_typing = no_fields \<lparr> type' := Some ''typing_indicator'', userId := Some ''jane'',
     channelId := Some ''1'', isTyping := Some True \<rparr>"

text \<open>
  What holds of the hook after every sequence of events: the retry count is 0 in the state
  and in every closure, every closure but the live one is destroyed, every pending timer
  belongs to a destroyed closure, and every delay set so far is 1000 ms.
\<close>

definition hook_inv :: "hook \<Rightarrow> bool" where
  "hook_inv s =
     (closures s \<noteq> [] \<and> retryCount s = 0
      \<and> list_all (\<lambda>cl. c_retryCount cl = 0) (closures s)
      \<and> list_all c_isDestroyed (butlast (closures s))
      \<and> \<not> c_isDestroyed (last (closures s))
      \<and> c_reconnectTimer (last (closures s)) = reconnectTimer s
      \<and> (case reconnectTimer s of None \<Rightarrow> True | Some t \<Rightarrow> t < next_timer s)
      \<and> list_all (\<lambda>(h, d, k). k < live s) (timers s)
      \<and> list_all (\<lambda>d. d = 1000) (delays s))"

text \<open>Sample events of the client.\<close>

definition ev_hi :: WebSocketMessage where
  "ev_hi = no_fields \<lparr> type' := Some ''message_confirmed'', id' := Some ''msg_1'',
     content := Some ''hi'', timestamp := Some ''2024-03-20T10:00:00.000Z'' \<rparr>"

definition send_hello :: WebSocketMessage where
  "send_hello = no_fields \<lparr> type' := Some ''new_message'', userId := Some ''current'',
     content := Some ''hello'', channelId := Some ''1'' \<rparr>"

definition old_entry :: Message where
  "old_entry = \<lparr> msg_id = ''msg_1'', msg_content = ''hey'', msg_sender = mockUsers0,
     msg_timestamp = ''T0'', msg_channelId = Some ''1'', msg_dmId = None, msg_reactions = [],
     msg_readBy = [''current''], msg_parentId = None \<rparr>"

definition old_hello :: Message where
  "old_hello = \<lparr> msg_id = ''msg_1'', msg_content = ''hello'', msg_sender = mockUsers0,
     msg_timestamp = ''T0'', msg_channelId = Some ''1'', msg_dmId = None, msg_reactions = [],
     msg_readBy = [''current''], msg_parentId = None \<rparr>"

definition confirm_hello :: WebSocketMessage where
  "confirm_hello = no_fields \<lparr> type' := Some ''message_confirmed'', id' := Some ''msg_7_k3'',
     content := Some ''hello'', channelId := Some ''1'', timestamp := Some ''T2'' \<rparr>"

section \<open>Client: reconnect backoff\<close>

lemmas hook_simps = closure_at_def clearTimeout_def connect_def run_effect_def cleanup_def
  live_def rerender_def mount_def setTimeout_def socket_onclose_def timer_callback_def
  nextRetry_def Let_def

lemma hook_inv_mount: "hook_inv mount"
  by (simp add: hook_inv_def hook_simps)

lemma hook_inv_split:
  assumes "hook_inv s"
  obtains cs cl where "closures s = cs @ [cl]" "live s = length cs"
    "c_retryCount cl = 0" "\<not> c_isDestroyed cl" "c_reconnectTimer cl = reconnectTimer s"
    "list_all c_isDestroyed cs" "list_all (\<lambda>cl. c_retryCount cl = 0) cs"
proof -
  from assms have ne: "closures s \<noteq> []" by (simp add: hook_inv_def)
  then have c: "closures s = butlast (closures s) @ [last (closures s)]" by simp
  show ?thesis
  proof (rule that [of "butlast (closures s)" "last (closures s)"])
    show "closures s = butlast (closures s) @ [last (closures s)]" by (rule c)
    show "live s = length (butlast (closures s))" by (simp add: live_def)
    show "c_retryCount (last (closures s)) = 0"
      using assms ne by (simp add: hook_inv_def list_all_iff)
    show "\<not> c_isDestroyed (last (closures s))" using assms by (simp add: hook_inv_def)
    show "c_reconnectTimer (last (closures s)) = reconnectTimer s"
      using assms by (simp add: hook_inv_def)
    show "list_all c_isDestroyed (butlast (closures s))" using assms by (simp add: hook_inv_def)
    show "list_all (\<lambda>cl. c_retryCount cl = 0) (butlast (closures s))"
      using assms by (auto simp add: hook_inv_def list_all_iff dest: in_set_butlastD)
  qed
qed

lemma onclose_live:
  assumes "hook_inv s"
  shows "hook_inv (socket_onclose (live s) s)"
    and "delays (socket_onclose (live s) s) = delays s @ [1000]"
    and "connects (socket_onclose (live s) s) = connects s + 1"
    and "live (socket_onclose (live s) s) = live s + 1"
proof -
  from assms obtain cs cl where sp: "closures s = cs @ [cl]" "live s = length cs"
    "c_retryCount cl = 0" "\<not> c_isDestroyed cl" "c_reconnectTimer cl = reconnectTimer s"
    "list_all c_isDestroyed cs" "list_all (\<lambda>cl. c_retryCount cl = 0) cs"
    by (rule hook_inv_split)
  from assms have r: "retryCount s = 0"
    and t: "case reconnectTimer s of None \<Rightarrow> True | Some t \<Rightarrow> t < next_timer s"
    and tm: "list_all (\<lambda>(h, d, k). k < length cs) (timers s)"
    and d: "list_all (\<lambda>d. d = 1000) (delays s)"
    by (simp_all add: hook_inv_def sp(2))
  from t have ne: "reconnectTimer s \<noteq> Some (next_timer s)"
    by (auto split: option.splits)
  have tm': "list_all (\<lambda>(h, d, k). k < Suc (length cs)) (filter P (timers s))" for P
    using tm by (auto simp add: list_all_iff)
  have tm'': "list_all (\<lambda>(h, d, k). k < Suc (length cs)) (timers s)"
    using tm by (auto simp add: list_all_iff)
  show "hook_inv (socket_onclose (live s) s)"
    unfolding sp(2)
    using sp r ne d tm tm' tm''
    by (auto simp add: hook_inv_def hook_simps nth_append split: option.splits)
  show "delays (socket_onclose (live s) s) = delays s @ [1000]"
    unfolding sp(2) using sp r ne
    by (auto simp add: hook_simps nth_append split: option.splits)
  show "connects (socket_onclose (live s) s) = connects s + 1"
    unfolding sp(2) using sp r ne
    by (auto simp add: hook_simps nth_append split: option.splits)
  show "live (socket_onclose (live s) s) = live s + 1"
    unfolding sp(2) using sp r ne
    by (auto simp add: hook_simps nth_append split: option.splits)
qed

lemma onclose_stale:
  assumes "hook_inv s" "k \<noteq> live s"
  shows "socket_onclose k s = s"
proof -
  from assms(1) obtain cs cl where sp: "closures s = cs @ [cl]" "live s = length cs"
    "c_retryCount cl = 0" "\<not> c_isDestroyed cl" "c_reconnectTimer cl = reconnectTimer s"
    "list_all c_isDestroyed cs" "list_all (\<lambda>cl. c_retryCount cl = 0) cs"
    by (rule hook_inv_split)
  show ?thesis
  proof (cases "k < length cs")
    case True
    with sp(6) have "c_isDestroyed (cs ! k)" by (simp add: list_all_length)
    with True sp(1) show ?thesis
      by (simp add: socket_onclose_def closure_at_def nth_append)
  next
    case False
    with assms(2) sp(2) have "\<not> k < length (closures s)" by (simp add: sp(1))
    then show ?thesis by (simp add: socket_onclose_def closure_at_def)
  qed
qed

lemma timer_stale:
  assumes "hook_inv s"
  shows "hook_inv (timer_callback t s)"
    and "delays (timer_callback t s) = delays s"
    and "connects (timer_callback t s) = connects s"
    and "closures (timer_callback t s) = closures s"
proof -
  from assms obtain cs cl where sp: "closures s = cs @ [cl]" "live s = length cs"
    "c_retryCount cl = 0" "\<not> c_isDestroyed cl" "c_reconnectTimer cl = reconnectTimer s"
    "list_all c_isDestroyed cs" "list_all (\<lambda>cl. c_retryCount cl = 0) cs"
    by (rule hook_inv_split)
  from assms have tm: "list_all (\<lambda>(h, d, k). k < length cs) (timers s)"
    by (simp add: hook_inv_def sp(2))
  have eq: "timer_callback t s = s \<or> timer_callback t s = clearTimeout t s"
  proof (cases "find (\<lambda>(h, d, k). h = t) (timers s)")
    case None
    then show ?thesis by (simp add: timer_callback_def)
  next
    case (Some x)
    obtain h d k where x: "x = (h, d, k)" by (cases x)
    from Some have "x \<in> set (timers s)" by (metis find_Some_iff nth_mem)
    with tm x have "k < length cs" by (auto simp add: list_all_iff)
    with sp(6) have "c_isDestroyed (cs ! k)" "k < length cs" by (simp_all add: list_all_length)
    with Some x sp(1) show ?thesis
      by (simp add: timer_callback_def closure_at_def clearTimeout_def nth_append Let_def)
  qed
  have inv: "hook_inv (clearTimeout t s)"
    using assms
    by (auto simp add: hook_inv_def clearTimeout_def live_def list_all_iff split: option.splits)
  from eq assms inv show "hook_inv (timer_callback t s)" by auto
  from eq show "delays (timer_callback t s) = delays s" by (auto simp add: clearTimeout_def)
  from eq show "connects (timer_callback t s) = connects s" by (auto simp add: clearTimeout_def)
  from eq show "closures (timer_callback t s) = closures s" by (auto simp add: clearTimeout_def)
qed

lemma hook_inv_step: "hook_inv s \<Longrightarrow> hook_inv (hook_step e s)"
proof (cases e)
  case (SocketClosed k)
  assume i: "hook_inv s"
  show ?thesis
  proof (cases "k = live s")
    case True
    with SocketClosed onclose_live(1) [OF i] show ?thesis by simp
  next
    case False
    with SocketClosed onclose_stale [OF i] i show ?thesis by simp
  qed
next
  case (TimerFires t)
  assume "hook_inv s"
  with TimerFires timer_stale(1) show ?thesis by simp
qed

lemma hook_inv_run: "hook_inv s \<Longrightarrow> hook_inv (hook_run es s)"
  by (induction es arbitrary: s) (simp_all add: hook_inv_step)

lemma nextRetry_values:
  "map nextRetry [0, 1, 2, 3, 4] = [1000, 2000, 4000, 8000, 10000]"
  by (simp add: nextRetry_def)

lemma hook_run_snoc: "hook_run (es @ [e]) s = hook_step e (hook_run es s)"
  by (induction es arbitrary: s) simp_all

lemma failures_in_a_row:
  "hook_inv (hook_run (map SocketClosed [0..<n]) mount)
   \<and> live (hook_run (map SocketClosed [0..<n]) mount) = n
   \<and> delays (hook_run (map SocketClosed [0..<n]) mount) = replicate n 1000
   \<and> connects (hook_run (map SocketClosed [0..<n]) mount) = n + 1"
proof (induction n)
  case 0
  show ?case by (simp add: hook_inv_mount) (simp add: hook_simps)
next
  case (Suc n)
  let ?s = "hook_run (map SocketClosed [0..<n]) mount"
  from Suc have i: "hook_inv ?s" and l: "live ?s = n" by simp_all
  have "hook_run (map SocketClosed [0..<Suc n]) mount = socket_onclose (live ?s) ?s"
    by (simp add: hook_run_snoc l)
  with onclose_live [OF i] Suc show ?case
    by (simp add: replicate_append_same)
qed

text \<open>
  C8. The backoff asks for the delays 1000, 2000, 4000, 8000, 10000 ms and no timer after
  five failures; \<open>nextRetry\<close> gives these delays for the retry counts 0 to 4. The hook does
  not get there: \<^verbatim>\<open>setReconnectTimer(timer)\<close> changes a dependency of the effect, so the
  cleanup destroys the closure that owns the timer and the effect connects again at once;
  the callback of the timer finds \<^verbatim>\<open>isDestroyed\<close> set and never increments the retry
  count. After every sequence of events the retry count is 0 and every delay set is 1000 ms,
  and one more failure of the live socket sets one more timer of 1000 ms and opens one more
  socket. After \<open>n\<close> failures in a row, \<open>n\<close> timers of 1000 ms have been set and
  \<open>n + 1\<close> sockets opened.
\<close>

theorem backoff_never_advances:
  "(let s = hook_run es mount; s' = socket_onclose (live s) s
    in retryCount s = 0 \<and> list_all (\<lambda>d. d = 1000) (delays s)
       \<and> delays s' = delays s @ [1000] \<and> connects s' = connects s + 1 \<and> retryCount s' = 0)
   \<and> delays (hook_run (map SocketClosed [0..<n]) mount) = replicate n 1000
   \<and> connects (hook_run (map SocketClosed [0..<n]) mount) = n + 1
   \<and> retryCount (hook_run (map SocketClosed [0..<n]) mount) = 0"
proof -
  have i: "hook_inv (hook_run es mount)" by (rule hook_inv_run [OF hook_inv_mount])
  have r: "hook_inv s \<Longrightarrow> retryCount s = 0 \<and> list_all (\<lambda>d. d = 1000) (delays s)" for s
    by (simp add: hook_inv_def)
  from failures_in_a_row [of n] have "retryCount (hook_run (map SocketClosed [0..<n]) mount) = 0"
    using r by blast
  with r [OF i] r [OF onclose_live(1) [OF i]] onclose_live(2,3) [OF i] failures_in_a_row [of n]
  show ?thesis by (simp add: Let_def)
qed

text \<open>Seven failures in a row.\<close>

theorem backoff_never_advances_witness:
  "delays (hook_run [SocketClosed 0, SocketClosed 1, SocketClosed 2, SocketClosed 3,
      SocketClosed 4, SocketClosed 5, SocketClosed 6] mount)
     = [1000, 1000, 1000, 1000, 1000, 1000, 1000]
   \<and> connects (hook_run [SocketClosed 0, SocketClosed 1, SocketClosed 2, SocketClosed 3,
      SocketClosed 4, SocketClosed 5, SocketClosed 6] mount) = 8
   \<and> retryCount (hook_run [SocketClosed 0, SocketClosed 1, SocketClosed 2, SocketClosed 3,
      SocketClosed 4, SocketClosed 5, SocketClosed 6] mount) = 0"
proof -
  have u: "map SocketClosed [0..<Suc (Suc (Suc (Suc (Suc (Suc (Suc 0))))))]
      = [SocketClosed 0, SocketClosed 1, SocketClosed 2, SocketClosed 3,
         SocketClosed 4, SocketClosed 5, SocketClosed 6]"
    by (simp add: numeral_eq_Suc)
  from backoff_never_advances [of "[]" "Suc (Suc (Suc (Suc (Suc (Suc (Suc 0))))))"]
  show ?thesis unfolding u by simp
qed

section \<open>Client: reconciliation\<close>

lemma sort_by_time_single: "sort_by_time gt [m] = [m]"
  by (simp add: sort_by_time_def)

lemma sort_by_time_same: "sort_by_time gt [m, m] = [m, m]"
  by (simp add: sort_by_time_def)

lemma set_sort_by_time: "set (sort_by_time gt ms) = set ms"
  by (simp add: sort_by_time_def)

lemma filter_sort_by_time: "filter P (sort_by_time gt ms) = sort_by_time gt (filter P ms)"
  by (simp add: sort_by_time_def filter_sort)

text \<open>
  C1. Reconciliation idempotence asks that a \<^verbatim>\<open>message_confirmed\<close> event applied twice
  gives the list it gives applied once, and that an event whose id is in the list already is
  ignored. The handler of \<^verbatim>\<open>message_confirmed\<close> appends without looking for the id: on the
  empty list the event \<open>ev_hi\<close> gives one entry, and applied again it gives two entries
  with the same id.
\<close>

theorem confirmed_twice_duplicates:
  "on_message_confirmed gt now ev_hi [] = [confirmedMessage now ev_hi]
   \<and> on_message_confirmed gt now ev_hi (on_message_confirmed gt now ev_hi [])
       = [confirmedMessage now ev_hi, confirmedMessage now ev_hi]
   \<and> on_message_confirmed gt now ev_hi (on_message_confirmed gt now ev_hi [])
       \<noteq> on_message_confirmed gt now ev_hi []
   \<and> msg_id (confirmedMessage now ev_hi) = ''msg_1''"
proof -
  have v: "id' ev_hi = Some ''msg_1''" "content ev_hi = Some ''hi''"
    by (simp_all add: ev_hi_def no_fields_def)
  have i: "msg_id (confirmedMessage now ev_hi) = ''msg_1''"
    by (simp add: confirmedMessage_def ev_hi_def no_fields_def)
  have s: "\<not> startsWith ''msg_1'' ''temp_''"
    by (simp add: startsWith_def)
  have 1: "on_message_confirmed gt now ev_hi [] = [confirmedMessage now ev_hi]"
    by (simp add: on_message_confirmed_def v truthy_def drop_placeholders_def sort_by_time_single)
  have 2: "on_message_confirmed gt now ev_hi [confirmedMessage now ev_hi]
       = [confirmedMessage now ev_hi, confirmedMessage now ev_hi]"
    by (simp add: on_message_confirmed_def v truthy_def drop_placeholders_def sort_by_time_same i s)
  show ?thesis by (simp add: 1 2 i)
qed

text \<open>The same at a fixed parser of dates and a fixed clock; the event passes the handler's checks.\<close>

theorem confirmed_twice_duplicates_witness:
  "truthy (id' ev_hi) \<and> truthy (content ev_hi)
   \<and> on_message_confirmed (\<lambda>s. 0) ''T'' ev_hi [] = [confirmedMessage ''T'' ev_hi]
   \<and> on_message_confirmed (\<lambda>s. 0) ''T'' ev_hi (on_message_confirmed (\<lambda>s. 0) ''T'' ev_hi [])
       = [confirmedMessage ''T'' ev_hi, confirmedMessage ''T'' ev_hi]"
proof -
  have "truthy (id' ev_hi)" "truthy (content ev_hi)"
    by (simp_all add: truthy_def ev_hi_def no_fields_def)
  with confirmed_twice_duplicates [of "\<lambda>s. 0" "''T''"] show ?thesis
    by blast
qed

text \<open>The handler of \<^verbatim>\<open>new_message\<close> does look for the id.\<close>

lemma on_new_message_has_id:
  assumes "truthy (content d)" "truthy (userId d)" "truthy (id' d)"
  shows "list_ex (\<lambda>m. msg_id m = the (id' d)) (on_new_message gt now d prev)"
  using assms
  by (auto simp add: on_new_message_def Let_def list_ex_iff set_sort_by_time)

lemma on_new_message_idempotent:
  "on_new_message gt now' d (on_new_message gt now d prev) = on_new_message gt now d prev"
proof (cases "truthy (content d) \<and> truthy (userId d) \<and> truthy (id' d)")
  case True
  then have "list_ex (\<lambda>m. msg_id m = the (id' d)) (on_new_message gt now d prev)"
    by (simp add: on_new_message_has_id)
  with True show ?thesis
    by (simp add: on_new_message_def [of gt now' d] Let_def)
next
  case False
  then show ?thesis by (auto simp add: on_new_message_def)
qed

lemma on_new_message_known_id:
  "list_ex (\<lambda>m. Some (msg_id m) = id' d) prev \<Longrightarrow> on_new_message gt now d prev = prev"
proof -
  assume "list_ex (\<lambda>m. Some (msg_id m) = id' d) prev"
  then obtain m where m: "m \<in> set prev" "id' d = Some (msg_id m)"
    by (auto simp add: list_ex_iff)
  then have "list_ex (\<lambda>x. msg_id x = the (id' d)) prev"
    by (auto simp add: list_ex_iff)
  then show ?thesis
    by (simp add: on_new_message_def Let_def)
qed

lemma sort_key_append_sorted:
  "sort_key f (sort_key f xs @ ys) = sort_key f (xs @ ys)"
proof (rule properties_for_sort_key [symmetric])
  show "mset (sort_key f (sort_key f xs @ ys)) = mset (xs @ ys)" by simp
  show "sorted (map f (sort_key f (sort_key f xs @ ys)))" by simp
  fix k
  have "filter (\<lambda>x. f k = f x) (sort_key f (sort_key f xs @ ys))
      = filter (\<lambda>x. f k = f x) (sort_key f xs @ ys)"
    using sort_key_stable [of f "f k" "sort_key f xs @ ys"]
    by (simp add: eq_commute [of "f k"])
  also have "\<dots> = filter (\<lambda>x. f k = f x) (xs @ ys)"
    using sort_key_stable [of f "f k" xs]
    by (simp add: eq_commute [of "f k"])
  finally show "filter (\<lambda>x. f k = f x) (sort_key f (sort_key f xs @ ys))
      = filter (\<lambda>x. f k = f x) (xs @ ys)" .
qed

lemma sort_by_time_append_sorted:
  "sort_by_time gt (sort_by_time gt xs @ ys) = sort_by_time gt (xs @ ys)"
  unfolding sort_by_time_def by (rule sort_key_append_sorted)

text \<open>
  C7, amended. The client sends \<open>c\<close> on an open socket, which appends a placeholder with
  a \<^verbatim>\<open>temp_\<close> id, and then receives a \<^verbatim>\<open>message_confirmed\<close> event with content \<open>c\<close>
  and id \<open>cid\<close>. Then the entries with content \<open>c\<close> are the confirmed entries with
  content \<open>c\<close> that the list held before the send, and the entry of the confirmation,
  whose id is \<open>cid\<close>: no placeholder with content \<open>c\<close> is left. When the list held no
  confirmed entry with content \<open>c\<close> before the send, it has exactly one entry with content
  \<open>c\<close> afterwards, the confirmed one, with the id \<open>cid\<close>.
\<close>

theorem placeholder_replacement:
  assumes c: "c \<noteq> []" and cid: "cid \<noteq> []"
    and msg: "type' message = Some ''new_message''" "content message = Some c"
    and d: "id' d = Some cid" "content d = Some c"
  shows "(let afterSend = snd (sendMessage gt True thr nowMs now1 message prev);
              final = on_message_confirmed gt now2 d afterSend
          in tempMessage nowMs now1 message \<in> set afterSend
             \<and> msg_content (tempMessage nowMs now1 message) = c
             \<and> startsWith (msg_id (tempMessage nowMs now1 message)) ''temp_''
             \<and> msg_id (confirmedMessage now2 d) = cid
             \<and> filter (\<lambda>m. msg_content m = c) final
                 = sort_by_time gt
                     (filter (\<lambda>m. msg_content m = c \<and> \<not> startsWith (msg_id m) ''temp_'') prev
                      @ [confirmedMessage now2 d])
             \<and> ((\<forall>m\<in>set prev. msg_content m = c \<longrightarrow> startsWith (msg_id m) ''temp_'')
                  \<longrightarrow> filter (\<lambda>m. msg_content m = c) final = [confirmedMessage now2 d]))"
proof -
  let ?t = "tempMessage nowMs now1 message"
  let ?a = "sort_by_time gt (prev @ [?t])"
  let ?cm = "confirmedMessage now2 d"
  let ?old = "filter (\<lambda>m. msg_content m = c \<and> \<not> startsWith (msg_id m) ''temp_'') prev"
  have a: "snd (sendMessage gt True thr nowMs now1 message prev) = ?a"
    by (simp add: sendMessage_def msg truthy_def c)
  have tc: "msg_content ?t = c" by (simp add: tempMessage_def msg)
  have tt: "startsWith (msg_id ?t) ''temp_''"
    by (simp add: tempMessage_def startsWith_def)
  have cmc: "msg_content ?cm = c" and cmi: "msg_id ?cm = cid"
    by (simp_all add: confirmedMessage_def d)
  have "filter (\<lambda>m. msg_content m = c) (drop_placeholders c (prev @ [?t])) = ?old"
    using tc tt by (simp add: drop_placeholders_def) (rule filter_cong, auto)
  then have kept: "filter (\<lambda>m. msg_content m = c) (drop_placeholders c ?a) = sort_by_time gt ?old"
    by (simp add: drop_placeholders_def filter_sort_by_time)
  have f: "on_message_confirmed gt now2 d ?a = sort_by_time gt (drop_placeholders c ?a @ [?cm])"
    by (simp add: on_message_confirmed_def d truthy_def c cid)
  have "filter (\<lambda>m. msg_content m = c) (on_message_confirmed gt now2 d ?a)
          = sort_by_time gt (sort_by_time gt ?old @ [?cm])"
    by (simp add: f filter_sort_by_time kept cmc)
  also have "\<dots> = sort_by_time gt (?old @ [?cm])"
    by (rule sort_by_time_append_sorted)
  finally have gen: "filter (\<lambda>m. msg_content m = c) (on_message_confirmed gt now2 d ?a)
          = sort_by_time gt (?old @ [?cm])" .
  have one: "filter (\<lambda>m. msg_content m = c) (on_message_confirmed gt now2 d ?a) = [?cm]"
    if "\<forall>m\<in>set prev. msg_content m = c \<longrightarrow> startsWith (msg_id m) ''temp_''"
  proof -
    from that have "?old = []" by (auto simp add: filter_empty_conv)
    with gen show ?thesis by (simp add: sort_by_time_single)
  qed
  show ?thesis
    unfolding Let_def a
    using gen one tc tt cmi by (simp add: set_sort_by_time)
qed

text \<open>The list holds one confirmed entry, with another content.\<close>

theorem placeholder_replacement_witness:
  "list_all (\<lambda>m. msg_content m \<noteq> ''hello'') [old_entry]
   \<and> filter (\<lambda>m. msg_content m = ''hello'')
     (on_message_confirmed (\<lambda>s. int (length s)) ''T3'' confirm_hello
        (snd (sendMessage (\<lambda>s. int (length s)) True False 5 ''T1'' send_hello [old_entry])))
   = [confirmedMessage ''T3'' confirm_hello]
   \<and> msg_id (confirmedMessage ''T3'' confirm_hello) = ''msg_7_k3''"
proof -
  have a: "''hello'' \<noteq> []" "''msg_7_k3'' \<noteq> []" by simp_all
  have b: "type' send_hello = Some ''new_message''" "content send_hello = Some ''hello''"
    by (simp_all add: send_hello_def no_fields_def)
  have c: "id' confirm_hello = Some ''msg_7_k3''" "content confirm_hello = Some ''hello''"
    by (simp_all add: confirm_hello_def no_fields_def)
  have p: "\<forall>m\<in>set [old_entry]. msg_content m = ''hello'' \<longrightarrow> startsWith (msg_id m) ''temp_''"
    by (simp add: old_entry_def)
  from placeholder_replacement [OF a b c, where prev = "[old_entry]"
      and gt = "\<lambda>s. int (length s)" and thr = False and nowMs = 5
      and ?now1.0 = "''T1''" and ?now2.0 = "''T3''", unfolded Let_def] p
  have "filter (\<lambda>m. msg_content m = ''hello'')
     (on_message_confirmed (\<lambda>s. int (length s)) ''T3'' confirm_hello
        (snd (sendMessage (\<lambda>s. int (length s)) True False 5 ''T1'' send_hello [old_entry])))
   = [confirmedMessage ''T3'' confirm_hello]
   \<and> msg_id (confirmedMessage ''T3'' confirm_hello) = ''msg_7_k3''"
    by blast
  then show ?thesis by (simp add: old_entry_def)
qed

text \<open>
  C7 as stated fails: the list holds a confirmed entry with content \<^verbatim>\<open>hello\<close>; after the
  send and the confirmation it has two entries with that content.
\<close>

theorem placeholder_replacement_counterexample:
  "\<not> startsWith (msg_id old_hello) ''temp_''
   \<and> filter (\<lambda>m. msg_content m = ''hello'')
        (on_message_confirmed (\<lambda>s. int (length s)) ''T3'' confirm_hello
          (snd (sendMessage (\<lambda>s. int (length s)) True False 5 ''T1'' send_hello [old_hello])))
      = [old_hello, confirmedMessage ''T3'' confirm_hello]
   \<and> msg_id old_hello \<noteq> msg_id (confirmedMessage ''T3'' confirm_hello)"
  by (simp add: old_hello_def startsWith_def on_message_confirmed_def sendMessage_def
      send_hello_def confirm_hello_def no_fields_def truthy_def tempMessage_def
      confirmedMessage_def drop_placeholders_def sort_by_time_def or_else_def)

section \<open>Server: what a broadcast and an eviction change\<close>

lemmas world_simps = w_all_open_def w_origin_fails_def w_bob_fails_def

lemmas hub_simps = hub_init_def hub_two_def hub_three_def

lemmas handler_simps = on_message_def dispatch_def case_new_message_def admit_def Let_def
  truthy_def messageId_at_def broadcastMessage.simps forEach_client.simps cleanupClient.simps
  evicted_def new_sends_def

lemma string_of_nat_5: "string_of_nat 5 = ''5''"
  by (simp add: string_of_nat.simps digit_char_def)

lemma string_of_nat_clock: "string_of_nat 1700000000123 = ''1700000000123''"
  by (simp add: string_of_nat.simps digit_char_def)

lemma m_hi_valid: "valid_new_message m_hi"
  by (simp add: valid_new_message_def m_hi_def no_fields_def truthy_def)

lemma m_hi_not_notice: "\<not> is_offline_notice m_hi"
  by (simp add: is_offline_notice_def m_hi_def no_fields_def offline_event_def)

lemma hub_two_distinct: "distinct (map fst (clients hub_two))"
  by (simp add: hub_simps)

lemma hub_rel_induct:
  assumes refl: "\<And>h. Rel h h"
    and trans: "\<And>h1 h2 h3. Rel h1 h2 \<Longrightarrow> Rel h2 h3 \<Longrightarrow> Rel h1 h3"
    and send: "\<And>h c e. Rel h (h \<lparr> sent := sent h @ [(c, e)] \<rparr>)"
    and evict: "\<And>w c u h. map_of (clients h) c = Some u \<Longrightarrow> Rel h (evicted w c u h)"
  shows "Rel h (broadcastMessage w m ex h)"
    and "Rel h (forEach_client w m ex cs h)"
    and "Rel h (cleanupClient w c h)"
proof (induction w m ex h and w m ex cs h and w c h
       rule: broadcastMessage_forEach_client_cleanupClient.induct)
  case (1 w m excludeWs h)
  then show ?case by (simp add: broadcastMessage.simps)
next
  case (2 w m excludeWs h)
  show ?case by (simp add: forEach_client.simps refl)
next
  case (3 w m excludeWs c cs h)
  let ?go = "c \<in> fst ` set (clients h) \<and> Some c \<noteq> excludeWs \<and> readyState_open w c"
  let ?mid = "if ?go then (if send_throws w c then cleanupClient w c h
                           else h \<lparr> sent := sent h @ [(c, m)] \<rparr>) else h"
  have "Rel h ?mid"
    using "3.IH"(1) refl send by auto
  moreover have "Rel ?mid (forEach_client w m excludeWs cs ?mid)"
    by (rule "3.IH"(2))
  ultimately show ?case
    using trans unfolding forEach_client.simps by blast
next
  case (4 w c h)
  show ?case
  proof (cases "map_of (clients h) c")
    case None
    then show ?thesis by (simp add: cleanupClient.simps refl)
  next
    case (Some u)
    show ?thesis
    proof (cases "u = []")
      case True
      with Some show ?thesis by (simp add: cleanupClient.simps refl)
    next
      case False
      have "Rel h (evicted w c u h)" using Some by (rule evict)
      moreover have "Rel (evicted w c u h)
        (broadcastMessage w (offline_event u (toISOString_at w (ticks h + 1))) None (evicted w c u h))"
        by (rule "4.IH" [OF Some False])
      ultimately show ?thesis
        using Some False trans [of h "evicted w c u h"] by (simp add: cleanupClient.simps)
    qed
  qed
qed

lemma sent_grows:
  "\<exists>ns. sent (broadcastMessage w m ex h) = sent h @ ns"
  "\<exists>ns. sent (forEach_client w m ex cs h) = sent h @ ns"
  "\<exists>ns. sent (cleanupClient w c h) = sent h @ ns"
  by (rule hub_rel_induct [where Rel = "\<lambda>h h'. \<exists>ns. sent h' = sent h @ ns"];
      auto simp add: evicted_def)+

lemma log_untouched:
  "messagesInMemory (broadcastMessage w m ex h) = messagesInMemory h
     \<and> pendingMessages (broadcastMessage w m ex h) = pendingMessages h"
  "messagesInMemory (forEach_client w m ex cs h) = messagesInMemory h
     \<and> pendingMessages (forEach_client w m ex cs h) = pendingMessages h"
  "messagesInMemory (cleanupClient w c h) = messagesInMemory h
     \<and> pendingMessages (cleanupClient w c h) = pendingMessages h"
  by (rule hub_rel_induct [where Rel = "\<lambda>h h'. messagesInMemory h' = messagesInMemory h
        \<and> pendingMessages h' = pendingMessages h"]; simp add: evicted_def)+

lemma only_evicts_refl: "only_evicts w X h h"
  by (simp add: only_evicts_def)

lemma only_evicts_trans:
  "only_evicts w X h1 h2 \<Longrightarrow> only_evicts w Y h2 h3 \<Longrightarrow> only_evicts w (X \<union> Y) h1 h3"
  unfolding only_evicts_def by (metis UnCI)

lemma only_evicts_send: "only_evicts w X h (h \<lparr> sent := sent h @ [(c, e)] \<rparr>)"
  by (simp add: only_evicts_def)

lemma only_evicts_evicted: "only_evicts w {c} h (evicted w c u h)"
  by (simp add: only_evicts_def evicted_def map_of_delete) (metis delete_conv fun_upd_apply)

lemma only_evicts_mono: "only_evicts w X h h' \<Longrightarrow> send_throws w c \<Longrightarrow> only_evicts w (X - {c}) h h'"
  unfolding only_evicts_def by blast

lemma registry_after:
  "only_evicts w {} h (broadcastMessage w m ex h)"
  "only_evicts w {} h (forEach_client w m ex cs h)"
  "only_evicts w {c} h (cleanupClient w c h)"
proof (induction w m ex h and w m ex cs h and w c h
       rule: broadcastMessage_forEach_client_cleanupClient.induct)
  case (1 w m excludeWs h)
  then show ?case by (simp add: broadcastMessage.simps)
next
  case (2 w m excludeWs h)
  show ?case by (simp add: forEach_client.simps only_evicts_refl)
next
  case (3 w m excludeWs c cs h)
  let ?go = "c \<in> fst ` set (clients h) \<and> Some c \<noteq> excludeWs \<and> readyState_open w c"
  let ?mid = "if ?go then (if send_throws w c then cleanupClient w c h
                           else h \<lparr> sent := sent h @ [(c, m)] \<rparr>) else h"
  have "only_evicts w {} h ?mid"
  proof (cases "?go \<and> send_throws w c")
    case True
    then have "only_evicts w {c} h (cleanupClient w c h)" using "3.IH"(1) by simp
    with True have "only_evicts w ({c} - {c}) h (cleanupClient w c h)"
      by (intro only_evicts_mono) simp_all
    with True show ?thesis by simp
  next
    case False
    then show ?thesis by (auto simp add: only_evicts_refl only_evicts_send)
  qed
  moreover have "only_evicts w {} ?mid (forEach_client w m excludeWs cs ?mid)"
    by (rule "3.IH"(2))
  ultimately show ?case
    using only_evicts_trans [of w "{}" h ?mid "{}"] unfolding forEach_client.simps by simp
next
  case (4 w c h)
  show ?case
  proof (cases "map_of (clients h) c")
    case None
    then show ?thesis by (simp add: cleanupClient.simps only_evicts_refl)
  next
    case (Some u)
    show ?thesis
    proof (cases "u = []")
      case True
      with Some show ?thesis by (simp add: cleanupClient.simps only_evicts_refl)
    next
      case False
      from only_evicts_trans [OF only_evicts_evicted "4.IH" [OF Some False]]
      show ?thesis using Some False by (simp add: cleanupClient.simps)
    qed
  qed
qed

lemma registered_iff: "registered h c \<longleftrightarrow> map_of (clients h) c \<noteq> None"
  by (simp add: registered_def map_of_eq_None_iff)

lemma copies_Nil: "copies P m [] = []"
  by (simp add: copies_def)

lemma target_only_evicts:
  assumes "only_evicts w {} h h'"
  shows "target w ex h' = target w ex h"
proof
  fix c
  from assms have "\<not> send_throws w c \<Longrightarrow> map_of (clients h') c = map_of (clients h) c"
    unfolding only_evicts_def by blast
  then have "\<not> send_throws w c \<Longrightarrow> registered h' c = registered h c"
    by (simp add: registered_iff)
  then show "target w ex h' c = target w ex h c"
    unfolding target_def registered_def by blast
qed

lemma deliveries:
  assumes P: "\<And>u ts. \<not> P (offline_event u ts)"
  shows "sent_where P (sent (broadcastMessage w m ex h))
           = sent_where P (sent h) @ copies P m (filter (target w ex h) (map fst (clients h)))"
    and "sent_where P (sent (forEach_client w m ex cs h))
           = sent_where P (sent h) @ copies P m (filter (target w ex h) cs)"
    and "sent_where P (sent (cleanupClient w c h)) = sent_where P (sent h)"
proof (induction w m ex h and w m ex cs h and w c h
       rule: broadcastMessage_forEach_client_cleanupClient.induct)
  case (1 w m excludeWs h)
  then show ?case by (simp add: broadcastMessage.simps)
next
  case (2 w m excludeWs h)
  show ?case by (simp add: forEach_client.simps copies_Nil)
next
  case (3 w m excludeWs c cs h)
  let ?go = "c \<in> fst ` set (clients h) \<and> Some c \<noteq> excludeWs \<and> readyState_open w c"
  let ?mid = "if ?go then (if send_throws w c then cleanupClient w c h
                           else h \<lparr> sent := sent h @ [(c, m)] \<rparr>) else h"
  have ev: "only_evicts w {} h ?mid"
    using registry_after(2) [of w h m excludeWs "[c]"]
    by (simp add: forEach_client.simps)
  have tg: "target w excludeWs ?mid = target w excludeWs h"
    using ev by (rule target_only_evicts)
  have mid: "sent_where P (sent ?mid)
      = sent_where P (sent h) @ copies P m (filter (target w excludeWs h) [c])"
  proof (cases "?go")
    case go: True
    show ?thesis
    proof (cases "send_throws w c")
      case True
      with go "3.IH"(1) show ?thesis by (simp add: target_def copies_def)
    next
      case False
      with go show ?thesis by (simp add: target_def copies_def sent_where_def)
    qed
  next
    case False
    then have "?mid = h" by (simp only: if_False)
    moreover from False have "\<not> target w excludeWs h c" by (auto simp add: target_def)
    ultimately show ?thesis by (simp add: copies_def)
  qed
  have "sent_where P (sent (forEach_client w m excludeWs (c # cs) h))
      = sent_where P (sent ?mid) @ copies P m (filter (target w excludeWs ?mid) cs)"
    unfolding forEach_client.simps by (rule "3.IH"(2))
  also have "\<dots> = sent_where P (sent h) @ copies P m (filter (target w excludeWs h) (c # cs))"
    unfolding mid tg by (simp add: copies_def)
  finally show ?case .
next
  case (4 w c h)
  show ?case
  proof (cases "map_of (clients h) c")
    case None
    then show ?thesis by (simp add: cleanupClient.simps)
  next
    case (Some u)
    show ?thesis
    proof (cases "u = []")
      case True
      with Some show ?thesis by (simp add: cleanupClient.simps)
    next
      case False
      from "4.IH" [OF Some False] Some False P show ?thesis
        by (simp add: cleanupClient.simps copies_def evicted_def)
    qed
  qed
qed

lemma offline_event_is_notice: "is_offline_notice (offline_event u ts)"
  by (simp add: is_offline_notice_def offline_event_def)

lemma not_notice: "\<not> is_offline_notice m \<Longrightarrow> m \<noteq> offline_event u ts"
  using offline_event_is_notice by blast

lemma users_truthyD: "users_truthy h \<Longrightarrow> map_of (clients h) c = Some u \<Longrightarrow> u \<noteq> []"
  by (auto simp add: users_truthy_def list_all_iff dest: map_of_SomeD)

lemma cleanupClient_unregistered:
  "\<not> registered h c \<Longrightarrow> cleanupClient w c h = h"
  by (simp add: registered_iff cleanupClient.simps)

lemma cleanupClient_removes:
  assumes "map_of (clients h) c = Some u" "u \<noteq> []"
  shows "map_of (clients (cleanupClient w c h)) c = None"
proof -
  let ?e = "evicted w c u h"
  let ?m = "offline_event u (toISOString_at w (ticks h + 1))"
  have "map_of (clients ?e) c = None"
    by (simp add: evicted_def delete_conv)
  moreover have "only_evicts w {} ?e (broadcastMessage w ?m None ?e)"
    by (rule registry_after(1))
  ultimately have "map_of (clients (broadcastMessage w ?m None ?e)) c = None"
    unfolding only_evicts_def by metis
  with assms show ?thesis by (simp add: cleanupClient.simps)
qed

lemma cleanupClient_idem: "cleanupClient w c (cleanupClient w c h) = cleanupClient w c h"
proof (cases "map_of (clients h) c")
  case None
  then show ?thesis by (simp add: cleanupClient.simps)
next
  case (Some u)
  show ?thesis
  proof (cases "u = []")
    case True
    with Some show ?thesis by (simp add: cleanupClient.simps)
  next
    case False
    from cleanupClient_removes [OF Some False]
    have "\<not> registered (cleanupClient w c h) c" by (simp add: registered_iff)
    then show ?thesis by (rule cleanupClient_unregistered)
  qed
qed

text \<open>
  C6. Evicting a connection twice gives the hub that evicting it once gives, for
  \<^verbatim>\<open>cleanupClient\<close> and for the close and error handlers that call it. Evicting a
  connection that is not registered changes nothing: no frame is sent, the registry and the
  presence store stay as they are. In a registry whose user ids are truthy, a connection is
  not registered after its eviction.
\<close>

theorem eviction_idempotent:
  "cleanupClient w c (cleanupClient w c h) = cleanupClient w c h
   \<and> on_close w c (on_close w c h) = on_close w c h
   \<and> (\<not> registered h c \<longrightarrow> cleanupClient w c h = h)
   \<and> (users_truthy h \<longrightarrow> \<not> registered (cleanupClient w c h) c)"
proof -
  have "\<not> registered (cleanupClient w c h) c" if "users_truthy h"
  proof (cases "map_of (clients h) c")
    case None
    then show ?thesis by (simp add: cleanupClient.simps registered_iff)
  next
    case (Some u)
    with that have "u \<noteq> []" by (auto dest: users_truthyD)
    from cleanupClient_removes [OF Some this] show ?thesis by (simp add: registered_iff)
  qed
  then show ?thesis
    by (simp add: cleanupClient_idem on_close_def cleanupClient_unregistered)
qed

text \<open>Evicting connection 0 of two, and evicting connection 7, which is not registered.\<close>

theorem eviction_idempotent_witness:
  "users_truthy hub_two
   \<and> \<not> registered (cleanupClient w_all_open 0 hub_two) 0
   \<and> cleanupClient w_all_open 0 (cleanupClient w_all_open 0 hub_two)
       = cleanupClient w_all_open 0 hub_two
   \<and> \<not> registered hub_two 7
   \<and> cleanupClient w_all_open 7 hub_two = hub_two"
  using eviction_idempotent [of w_all_open 0 hub_two] eviction_idempotent [of w_all_open 7 hub_two]
  by (simp add: users_truthy_def registered_def hub_simps)

lemma users_truthy_only_evicts:
  assumes "only_evicts w X h h'"
  shows "(\<forall>c u. map_of (clients h) c = Some u \<longrightarrow> u \<noteq> [])
         \<Longrightarrow> (\<forall>c u. map_of (clients h') c = Some u \<longrightarrow> u \<noteq> [])"
  using assms unfolding only_evicts_def by (metis option.distinct(1))

lemma stays_unregistered:
  "only_evicts w X h h' \<Longrightarrow> map_of (clients h) c = None \<Longrightarrow> map_of (clients h') c = None"
  unfolding only_evicts_def by metis

lemma only_evicts_keeps:
  "only_evicts w {} h h' \<Longrightarrow> \<not> send_throws w c \<Longrightarrow> map_of (clients h') c = map_of (clients h) c"
  unfolding only_evicts_def by auto

lemma failing_evicted:
  assumes "\<forall>c u. map_of (clients h) c = Some u \<longrightarrow> u \<noteq> []"
  shows "\<forall>c\<in>set cs. Some c \<noteq> ex \<and> readyState_open w c \<and> send_throws w c
           \<longrightarrow> map_of (clients (forEach_client w m ex cs h)) c = None"
  using assms
proof (induction cs arbitrary: h)
  case Nil
  then show ?case by simp
next
  case (Cons c cs)
  let ?go = "c \<in> fst ` set (clients h) \<and> Some c \<noteq> ex \<and> readyState_open w c"
  let ?mid = "if ?go then (if send_throws w c then cleanupClient w c h
                           else h \<lparr> sent := sent h @ [(c, m)] \<rparr>) else h"
  have ev: "only_evicts w {} h ?mid"
    using registry_after(2) [of w h m ex "[c]"] by (simp add: forEach_client.simps)
  have mid_users: "\<forall>c u. map_of (clients ?mid) c = Some u \<longrightarrow> u \<noteq> []"
    using users_truthy_only_evicts [OF ev] Cons.prems by blast
  have tail: "\<forall>c'\<in>set cs. Some c' \<noteq> ex \<and> readyState_open w c' \<and> send_throws w c'
           \<longrightarrow> map_of (clients (forEach_client w m ex cs ?mid)) c' = None"
    by (rule Cons.IH [OF mid_users])
  have head: "map_of (clients (forEach_client w m ex cs ?mid)) c = None"
    if f: "Some c \<noteq> ex" "readyState_open w c" "send_throws w c"
  proof -
    have "map_of (clients ?mid) c = None"
    proof (cases "map_of (clients h) c")
      case None
      with ev show ?thesis by (rule stays_unregistered)
    next
      case (Some u)
      with Cons.prems have u: "u \<noteq> []" by blast
      from Some have "c \<in> fst ` set (clients h)"
        using registered_iff [of h c] by (simp add: registered_def)
      with f have "?mid = cleanupClient w c h" by simp
      with cleanupClient_removes [OF Some u] show ?thesis by simp
    qed
    with registry_after(2) [of w ?mid m ex cs] show ?thesis
      by (rule stays_unregistered)
  qed
  show ?case
    unfolding forEach_client.simps using head tail by auto
qed

lemma new_sends_append: "sent h' = sent h @ ns \<Longrightarrow> new_sends h h' = ns"
  by (simp add: new_sends_def)

lemma sent_where_new:
  assumes "sent h' = sent h @ ns" "sent_where P (sent h') = sent_where P (sent h) @ xs"
  shows "sent_where P (new_sends h h') = xs"
  using assms by (simp add: new_sends_def sent_where_def)

lemma target_excluding:
  "filter (target w (Some c) h) (map fst (clients h))
     = filter (\<lambda>c'. c' \<noteq> c \<and> readyState_open w c' \<and> \<not> send_throws w c') (map fst (clients h))"
  by (rule filter_cong) (auto simp add: target_def)

text \<open>
  C5. \<^verbatim>\<open>broadcastMessage\<close> is called with an event \<open>m\<close> and the excluded connection \<open>c\<close>,
  where \<open>m\<close> is not the presence event of an eviction and the registered user ids are
  truthy. The frames with \<open>m\<close> that the call sends are one to each registered connection
  other than \<open>c\<close> that is OPEN and whose \<^verbatim>\<open>send\<close> does not throw, in the registry's order;
  \<open>c\<close> is sent none. Such a connection stays registered. A registered connection other than
  \<open>c\<close> that is OPEN and whose \<^verbatim>\<open>send\<close> throws is evicted, and the delivery goes on.
\<close>

theorem fan_out_exclusion:
  assumes m: "\<not> is_offline_notice m" and u: "users_truthy h"
  shows "(let h' = broadcastMessage w m (Some c) h in
           sent_where (\<lambda>e. e = m) (new_sends h h')
             = map (\<lambda>c'. (c', m))
                 (filter (\<lambda>c'. c' \<noteq> c \<and> readyState_open w c' \<and> \<not> send_throws w c')
                    (map fst (clients h)))
           \<and> (c, m) \<notin> set (new_sends h h')
           \<and> (\<forall>c'. registered h c' \<and> c' \<noteq> c \<and> readyState_open w c' \<and> \<not> send_throws w c'
                 \<longrightarrow> (c', m) \<in> set (new_sends h h') \<and> registered h' c')
           \<and> (\<forall>c'. registered h c' \<and> c' \<noteq> c \<and> readyState_open w c' \<and> send_throws w c'
                 \<longrightarrow> \<not> registered h' c'))"
proof -
  let ?h' = "broadcastMessage w m (Some c) h"
  let ?ok = "\<lambda>c'. c' \<noteq> c \<and> readyState_open w c' \<and> \<not> send_throws w c'"
  obtain ns where ns: "sent ?h' = sent h @ ns" using sent_grows(1) by blast
  have P: "\<And>u ts. \<not> (\<lambda>e. e = m) (offline_event u ts)"
    using m not_notice by blast
  have "sent_where (\<lambda>e. e = m) (sent ?h')
      = sent_where (\<lambda>e. e = m) (sent h)
        @ copies (\<lambda>e. e = m) m (filter (target w (Some c) h) (map fst (clients h)))"
    using P by (rule deliveries(1))
  from sent_where_new [OF ns this]
  have A: "sent_where (\<lambda>e. e = m) (new_sends h ?h')
      = map (\<lambda>c'. (c', m)) (filter ?ok (map fst (clients h)))"
    by (simp add: copies_def target_excluding)
  have mem: "(c', m) \<in> set (new_sends h ?h') \<longleftrightarrow> (c', m) \<in> set (sent_where (\<lambda>e. e = m) (new_sends h ?h'))"
    for c' by (auto simp add: sent_where_def)
  have B: "(c, m) \<notin> set (new_sends h ?h')"
    unfolding mem A by auto
  have C: "(c', m) \<in> set (new_sends h ?h')" if "registered h c'" "?ok c'" for c'
    unfolding mem A using that by (auto simp add: registered_def)
  have ev: "only_evicts w {} h ?h'" by (rule registry_after(1))
  have D: "registered ?h' c'" if "registered h c'" "\<not> send_throws w c'" for c'
    using only_evicts_keeps [OF ev that(2)] that(1) by (simp add: registered_iff)
  have users: "\<forall>c u. map_of (clients h) c = Some u \<longrightarrow> u \<noteq> []"
    using u users_truthyD by blast
  have E: "\<not> registered ?h' c'"
    if "registered h c'" "c' \<noteq> c" "readyState_open w c'" "send_throws w c'" for c'
  proof -
    from that(1) have "c' \<in> set (map fst (clients h))" by (simp add: registered_def)
    with failing_evicted [OF users, of "map fst (clients h)" "Some c" w m] that(2,3,4)
    have "map_of (clients (forEach_client w m (Some c) (map fst (clients h)) h)) c' = None"
      by blast
    then show ?thesis by (simp add: broadcastMessage.simps registered_iff)
  qed
  show ?thesis
    unfolding Let_def using A B C D E by blast
qed

text \<open>
  Three connections, \<^verbatim>\<open>send\<close> throws on connection 1, connection 0 is excluded: 2 is sent
  the event, 0 is not, 1 is evicted.
\<close>

theorem fan_out_exclusion_witness:
  "\<not> is_offline_notice m_hi \<and> users_truthy hub_three
   \<and> (0, m_hi) \<notin> set (new_sends hub_three (broadcastMessage w_bob_fails m_hi (Some 0) hub_three))
   \<and> (2, m_hi) \<in> set (new_sends hub_three (broadcastMessage w_bob_fails m_hi (Some 0) hub_three))
   \<and> registered (broadcastMessage w_bob_fails m_hi (Some 0) hub_three) 2
   \<and> \<not> registered (broadcastMessage w_bob_fails m_hi (Some 0) hub_three) 1"
proof -
  have u: "users_truthy hub_three" by (simp add: users_truthy_def hub_simps)
  have r2: "registered hub_three 2 \<and> 2 \<noteq> (0::nat) \<and> readyState_open w_bob_fails 2
            \<and> \<not> send_throws w_bob_fails 2"
    by (simp add: registered_def hub_simps world_simps)
  have r1: "registered hub_three 1 \<and> 1 \<noteq> (0::nat) \<and> readyState_open w_bob_fails 1
            \<and> send_throws w_bob_fails 1"
    by (simp add: registered_def hub_simps world_simps)
  from fan_out_exclusion [OF m_hi_not_notice u, of w_bob_fails 0] r1 r2 u m_hi_not_notice
  show ?thesis unfolding Let_def by blast
qed

text \<open>
  The whole trace of that call: the eviction of connection 1 broadcasts its presence event
  to every connection left, the excluded one too, before the loop reaches connection 2.
\<close>

lemma broadcast_trace_with_failure:
  "new_sends hub_three (broadcastMessage w_bob_fails m_hi (Some 0) hub_three)
     = [(0, offline_event ''bob'' ''T''), (2, offline_event ''bob'' ''T''), (2, m_hi)]"
  by (simp add: handler_simps world_simps hub_simps AList.delete_eq)

lemma on_message_well_formed:
  assumes "truthy (type' message)" "truthy (userId message)"
  shows "on_message w ws (Some message) h
           = dispatch w ws message (toISOString_at w (ticks h)) (admitted ws message h)"
  using assms by (simp add: on_message_def Let_def admitted_def)

lemma truthy_Some: "truthy (Some s) = (s \<noteq> [])"
  by (simp add: truthy_def)

lemma valid_truthy_type: "valid_new_message message \<Longrightarrow> truthy (type' message)"
  by (simp add: valid_new_message_def truthy_def)

lemma on_message_new_message:
  assumes "valid_new_message message"
  shows "on_message w ws (Some message) h
           = case_new_message w ws message (toISOString_at w (ticks h)) (admitted ws message h)"
  using assms valid_truthy_type [OF assms]
  by (simp add: on_message_well_formed dispatch_def valid_new_message_def)

lemma delete_update_same: "AList.delete k (AList.update k v xs) = AList.delete k xs"
  by (induction xs) auto

lemma delete_absent: "k \<notin> fst ` set xs \<Longrightarrow> AList.delete k xs = xs"
  by (induction xs) auto

lemma case_new_message_throws:
  assumes "truthy (content message)" "send_throws w ws"
  shows "case_new_message w ws message ts h
           = h \<lparr> messagesInMemory := messagesInMemory h,
                 pendingMessages := AList.delete (messageId_at w (ticks h)) (pendingMessages h),
                 ticks := ticks h + 2 \<rparr>"
  using assms by (simp add: case_new_message_def Let_def delete_update_same)

lemma case_new_message_sends:
  assumes "truthy (content message)" "\<not> send_throws w ws"
  shows "case_new_message w ws message ts h
           = (let msgId = messageId_at w (ticks h);
                  newMessage = newMessage_of msgId ts message;
                  h2 = broadcastMessage w newMessage (Some ws)
                        (h \<lparr> messagesInMemory := messagesInMemory h @ [newMessage],
                             pendingMessages := AList.update msgId newMessage (pendingMessages h),
                             ticks := ticks h + 2,
                             sent := sent h @ [(ws, confirmation msgId ts message)] \<rparr>)
              in h2 \<lparr> pendingMessages := AList.delete msgId (pendingMessages h2) \<rparr>)"
  using assms by (simp add: case_new_message_def Let_def)

lemma intake_throws:
  assumes "valid_new_message message" and "send_throws w ws"
  shows "on_message w ws (Some message) h
           = (admitted ws message h)
               \<lparr> pendingMessages :=
                   AList.delete (messageId_at w (ticks h + 1)) (pendingMessages h),
                 ticks := ticks h + 3 \<rparr>"
proof -
  from assms(1) have c: "truthy (content message)" by (simp add: valid_new_message_def)
  show ?thesis
    unfolding on_message_new_message [OF assms(1)] case_new_message_throws [OF c assms(2)]
    by (simp add: admitted_def admit_def)
qed

text \<open>
  C10. A \<^verbatim>\<open>new_message\<close> event passes the checks and \<^verbatim>\<open>ws.send\<close> of the confirmation
  throws. Then the handler sends no frame, so no broadcast either, the message log is the
  one before the event, and the pending map is the one before the event without the new id,
  which is the map itself when the id was not pending.
\<close>

theorem intake_rollback:
  assumes "valid_new_message message" and "send_throws w ws"
  shows "(let h' = on_message w ws (Some message) h;
              msgId = messageId_at w (ticks h + 1)
          in messagesInMemory h' = messagesInMemory h
             \<and> new_sends h h' = [] \<and> sent h' = sent h
             \<and> pendingMessages h' = AList.delete msgId (pendingMessages h)
             \<and> (msgId \<notin> fst ` set (pendingMessages h) \<longrightarrow> pendingMessages h' = pendingMessages h)
             \<and> userPresenceInMemory h' = userPresenceInMemory h)"
proof -
  show ?thesis
    unfolding intake_throws [OF assms]
    by (simp add: Let_def admitted_def admit_def new_sends_def delete_absent)
qed

theorem intake_rollback_witness:
  "valid_new_message m_hi \<and> send_throws w_origin_fails 0
   \<and> messagesInMemory (on_message w_origin_fails 0 (Some m_hi) hub_two) = messagesInMemory hub_two
   \<and> sent (on_message w_origin_fails 0 (Some m_hi) hub_two) = sent hub_two
   \<and> pendingMessages (on_message w_origin_fails 0 (Some m_hi) hub_two) = pendingMessages hub_two"
  using intake_rollback [where message = m_hi and w = w_origin_fails and ws = 0 and h = hub_two]
  by (simp add: Let_def m_hi_valid world_simps hub_simps)

lemma type_newMessage_of [simp]: "type' (newMessage_of i ts message) = type' message"
  by (simp add: newMessage_of_def)

lemma type_confirmation [simp]: "type' (confirmation i ts message) = Some ''message_confirmed''"
  by (simp add: confirmation_def)

lemma type_offline_event [simp]: "type' (offline_event u ts) = Some ''presence_update''"
  by (simp add: offline_event_def)

lemma intake_sends:
  assumes v: "valid_new_message message" and ok: "\<not> send_throws w ws"
    and P: "\<And>u ts. \<not> P (offline_event u ts)"
  shows "sent_where P (new_sends h (on_message w ws (Some message) h))
     = sent_where P [(ws, confirmation (messageId_at w (ticks h + 1)) (toISOString_at w (ticks h)) message)]
       @ copies P (newMessage_of (messageId_at w (ticks h + 1)) (toISOString_at w (ticks h)) message)
           (filter (\<lambda>c. c \<noteq> ws \<and> readyState_open w c \<and> \<not> send_throws w c)
              (map fst (clients (admitted ws message h))))"
proof -
  define tsv where "tsv = toISOString_at w (ticks h)"
  define idv where "idv = messageId_at w (ticks h + 1)"
  define nm where "nm = newMessage_of idv tsv message"
  define conf where "conf = confirmation idv tsv message"
  define hA where "hA = admitted ws message h"
  define hs where "hs = hA \<lparr> messagesInMemory := messagesInMemory hA @ [nm],
                   pendingMessages := AList.update idv nm (pendingMessages hA),
                   ticks := ticks hA + 2,
                   sent := sent hA @ [(ws, conf)] \<rparr>"
  define h2 where "h2 = broadcastMessage w nm (Some ws) hs"
  from v have c: "truthy (content message)" by (simp add: valid_new_message_def)
  have tk: "ticks hA = ticks h + 1" and sn: "sent hA = sent h"
    by (simp_all add: hA_def admitted_def admit_def)
  have "on_message w ws (Some message) h
      = h2 \<lparr> pendingMessages := AList.delete idv (pendingMessages h2) \<rparr>"
    unfolding on_message_new_message [OF v] case_new_message_sends [OF c ok]
    by (simp add: Let_def tk h2_def hs_def nm_def conf_def idv_def tsv_def hA_def [symmetric])
  then have res: "sent (on_message w ws (Some message) h) = sent h2"
    by simp
  have shs: "sent hs = sent h @ [(ws, conf)]" and chs: "clients hs = clients hA"
    by (simp_all add: hs_def sn)
  obtain ns where ns: "sent h2 = sent hs @ ns" unfolding h2_def using sent_grows(1) by blast
  have "sent_where P (sent h2) = sent_where P (sent hs)
      @ copies P nm (filter (target w (Some ws) hs) (map fst (clients hs)))"
    unfolding h2_def using P by (rule deliveries(1))
  from sent_where_new [OF ns this]
  have 1: "sent_where P ns = copies P nm (filter (target w (Some ws) hs) (map fst (clients hs)))"
    by (simp add: new_sends_append [OF ns])
  have 2: "new_sends h (on_message w ws (Some message) h) = (ws, conf) # ns"
    unfolding new_sends_def res ns shs by simp
  have 3: "filter (target w (Some ws) hs) (map fst (clients hs))
      = filter (\<lambda>c. c \<noteq> ws \<and> readyState_open w c \<and> \<not> send_throws w c) (map fst (clients hA))"
    using target_excluding [of w ws hs] by (simp add: chs)
  have "sent_where P ((ws, conf) # ns) = sent_where P [(ws, conf)] @ sent_where P ns"
    by (simp add: sent_where_def)
  then show ?thesis
    unfolding 2 1 3 unfolding nm_def conf_def idv_def tsv_def hA_def .
qed

lemma keys_admitted: "fst ` set (clients (admitted ws message h)) = insert ws (fst ` set (clients h))"
  by (simp add: admitted_def admit_def dom_update)

lemma distinct_admitted:
  "distinct (map fst (clients h)) \<Longrightarrow> distinct (map fst (clients (admitted ws message h)))"
  by (simp add: admitted_def admit_def distinct_update)

text \<open>
  C2, amended. A \<^verbatim>\<open>new_message\<close> event passes the checks, on a registry without
  duplicate connections. When \<^verbatim>\<open>ws.send\<close> of the confirmation does not throw, the handler
  sends exactly one \<^verbatim>\<open>message_confirmed\<close> frame, to the originator, and the
  \<^verbatim>\<open>new_message\<close> frames it sends are one copy of the stored message to each other
  registered connection that is OPEN and whose \<^verbatim>\<open>send\<close> does not throw, each once, none to
  the originator. When \<^verbatim>\<open>ws.send\<close> of the confirmation throws, the handler sends nothing.
\<close>

theorem confirmation_and_broadcast:
  assumes v: "valid_new_message message" and d: "distinct (map fst (clients h))"
  shows "(let h' = on_message w ws (Some message) h;
              ts = toISOString_at w (ticks h);
              msgId = messageId_at w (ticks h + 1);
              others = filter (\<lambda>c. c \<noteq> ws \<and> readyState_open w c \<and> \<not> send_throws w c)
                         (map fst (clients (admitted ws message h)))
          in (send_throws w ws \<longrightarrow> new_sends h h' = [])
           \<and> (\<not> send_throws w ws \<longrightarrow>
                 sent_where (\<lambda>e. type' e = Some ''message_confirmed'') (new_sends h h')
                   = [(ws, confirmation msgId ts message)]
               \<and> sent_where (\<lambda>e. type' e = Some ''new_message'') (new_sends h h')
                   = map (\<lambda>c. (c, newMessage_of msgId ts message)) others)
           \<and> distinct others \<and> ws \<notin> set others
           \<and> (\<forall>c. registered h c \<and> c \<noteq> ws \<and> readyState_open w c \<and> \<not> send_throws w c
                 \<longrightarrow> c \<in> set others))"
proof -
  have t: "type' message = Some ''new_message''" using v by (simp add: valid_new_message_def)
  have thr: "new_sends h (on_message w ws (Some message) h) = []" if "send_throws w ws"
    unfolding intake_throws [OF v that] by (simp add: new_sends_def admitted_def admit_def)
  have a: "sent_where (\<lambda>e. type' e = Some ''message_confirmed'')
             (new_sends h (on_message w ws (Some message) h))
           = [(ws, confirmation (messageId_at w (ticks h + 1)) (toISOString_at w (ticks h)) message)]"
    if "\<not> send_throws w ws"
    by (subst intake_sends [OF v that]) (simp_all add: sent_where_def copies_def t)
  have b: "sent_where (\<lambda>e. type' e = Some ''new_message'')
             (new_sends h (on_message w ws (Some message) h))
           = map (\<lambda>c. (c, newMessage_of (messageId_at w (ticks h + 1)) (toISOString_at w (ticks h)) message))
               (filter (\<lambda>c. c \<noteq> ws \<and> readyState_open w c \<and> \<not> send_throws w c)
                         (map fst (clients (admitted ws message h))))"
    if "\<not> send_throws w ws"
    by (subst intake_sends [OF v that]) (simp_all add: sent_where_def copies_def t)
  have c: "distinct (filter (\<lambda>c. c \<noteq> ws \<and> readyState_open w c \<and> \<not> send_throws w c)
                         (map fst (clients (admitted ws message h))))"
    using distinct_admitted [OF d] by (rule distinct_filter)
  have e: "c \<in> set (filter (\<lambda>c. c \<noteq> ws \<and> readyState_open w c \<and> \<not> send_throws w c)
                         (map fst (clients (admitted ws message h))))"
    if "registered h c" "c \<noteq> ws" "readyState_open w c" "\<not> send_throws w c" for c
    using that keys_admitted [of ws message h] by (simp add: registered_def)
  show ?thesis
    unfolding Let_def using thr a b c e by simp
qed

theorem confirmation_and_broadcast_witness:
  "valid_new_message m_hi \<and> distinct (map fst (clients hub_two))
   \<and> \<not> send_throws w_all_open 0
   \<and> sent_where (\<lambda>e. type' e = Some ''message_confirmed'')
        (new_sends hub_two (on_message w_all_open 0 (Some m_hi) hub_two))
       = [(0, confirmation ''msg_5_k3'' ''T'' m_hi)]
   \<and> sent_where (\<lambda>e. type' e = Some ''new_message'')
        (new_sends hub_two (on_message w_all_open 0 (Some m_hi) hub_two))
       = [(1, newMessage_of ''msg_5_k3'' ''T'' m_hi)]
   \<and> send_throws w_origin_fails 0
   \<and> new_sends hub_two (on_message w_origin_fails 0 (Some m_hi) hub_two) = []"
  using confirmation_and_broadcast [OF m_hi_valid hub_two_distinct, of w_all_open 0]
    confirmation_and_broadcast [OF m_hi_valid hub_two_distinct, of w_origin_fails 0]
  by (simp add: Let_def m_hi_valid world_simps hub_simps admitted_def admit_def
      messageId_at_def string_of_nat_5)

text \<open>
  C2 as stated fails: \<^verbatim>\<open>send\<close> throws on the originator 0, the event passes the checks,
  connection 1 is registered, OPEN and healthy, and neither a confirmation nor a broadcast
  is sent.
\<close>

theorem confirmation_uniqueness_counterexample:
  "valid_new_message m_hi
   \<and> registered hub_two 1 \<and> readyState_open w_origin_fails 1 \<and> \<not> send_throws w_origin_fails 1
   \<and> new_sends hub_two (on_message w_origin_fails 0 (Some m_hi) hub_two) = []"
  by (simp add: valid_new_message_def registered_def handler_simps world_simps hub_simps
      m_hi_def no_fields_def)

lemma rejected_no_sender:
  assumes "\<not> truthy (userId message)"
  shows "on_message w ws (Some message) h = h \<lparr> ticks := ticks h + 1 \<rparr>"
  using assms by (simp add: on_message_def Let_def)

lemma rejected_no_content:
  assumes "type' message = Some ''new_message''" "truthy (userId message)" "\<not> truthy (content message)"
  shows "on_message w ws (Some message) h = admitted ws message h"
  using assms
  by (simp add: on_message_well_formed truthy_def dispatch_def case_new_message_def)

lemma accepted_log:
  assumes v: "valid_new_message message" and ok: "\<not> send_throws w ws"
  shows "messagesInMemory (on_message w ws (Some message) h)
     = messagesInMemory h
       @ [newMessage_of (messageId_at w (ticks h + 1)) (toISOString_at w (ticks h)) message]"
proof -
  from v have c: "truthy (content message)" by (simp add: valid_new_message_def)
  show ?thesis
    unfolding on_message_new_message [OF v] case_new_message_sends [OF c ok]
    by (simp add: Let_def log_untouched(1) admitted_def admit_def)
qed

text \<open>
  C3, amended. A \<^verbatim>\<open>new_message\<close> event whose content is absent or the empty string, or
  whose sender id is absent or empty, is rejected: no frame is sent, the message log and the
  pending map are unchanged. The content is not trimmed. An event with a sender id, a
  non-empty content and no parent id is accepted when \<^verbatim>\<open>ws.send\<close> of the confirmation
  does not throw: the confirmation is sent and the message is appended to the log. When
  \<^verbatim>\<open>ws.send\<close> of the confirmation throws, an event that passes the checks is dropped: no
  frame is sent and the log is the one before.
\<close>

theorem intake_validation:
  "(let h' = on_message w ws (Some message) h;
        ts = toISOString_at w (ticks h);
        msgId = messageId_at w (ticks h + 1)
    in (type' message = Some ''new_message''
          \<and> (\<not> truthy (content message) \<or> \<not> truthy (userId message))
        \<longrightarrow> new_sends h h' = [] \<and> sent h' = sent h
            \<and> messagesInMemory h' = messagesInMemory h
            \<and> pendingMessages h' = pendingMessages h)
     \<and> (valid_new_message message \<and> parentId message = None \<and> \<not> send_throws w ws
        \<longrightarrow> sent_where (\<lambda>e. type' e = Some ''message_confirmed'') (new_sends h h')
              = [(ws, confirmation msgId ts message)]
            \<and> messagesInMemory h' = messagesInMemory h @ [newMessage_of msgId ts message])
     \<and> (valid_new_message message \<and> send_throws w ws
        \<longrightarrow> new_sends h h' = [] \<and> messagesInMemory h' = messagesInMemory h))"
proof -
  have r: "new_sends h h' = [] \<and> sent h' = sent h \<and> messagesInMemory h' = messagesInMemory h
            \<and> pendingMessages h' = pendingMessages h"
    if "h' = on_message w ws (Some message) h" "type' message = Some ''new_message''"
       "\<not> truthy (content message) \<or> \<not> truthy (userId message)" for h'
  proof (cases "truthy (userId message)")
    case True
    with that(3) have "\<not> truthy (content message)" by simp
    from rejected_no_content [OF that(2) True this] that(1) show ?thesis
      by (simp add: admitted_def admit_def new_sends_def)
  next
    case False
    from rejected_no_sender [OF this] that(1) show ?thesis
      by (simp add: new_sends_def)
  qed
  have a: "sent_where (\<lambda>e. type' e = Some ''message_confirmed'')
             (new_sends h (on_message w ws (Some message) h))
           = [(ws, confirmation (messageId_at w (ticks h + 1)) (toISOString_at w (ticks h)) message)]"
    if "valid_new_message message" "\<not> send_throws w ws"
    using that(1) by (subst intake_sends [OF that]) (simp_all add: sent_where_def copies_def valid_new_message_def)
  have t: "new_sends h (on_message w ws (Some message) h) = []
           \<and> messagesInMemory (on_message w ws (Some message) h) = messagesInMemory h"
    if "valid_new_message message" "send_throws w ws"
    unfolding intake_throws [OF that] by (simp add: new_sends_def admitted_def admit_def)
  show ?thesis
    unfolding Let_def using r a t accepted_log by blast
qed

theorem intake_validation_witness:
  "type' m_no_content = Some ''new_message'' \<and> \<not> truthy (content m_no_content)
   \<and> new_sends hub_two (on_message w_all_open 0 (Some m_no_content) hub_two) = []
   \<and> messagesInMemory (on_message w_all_open 0 (Some m_no_content) hub_two) = []
   \<and> valid_new_message m_hi \<and> parentId m_hi = None \<and> \<not> send_throws w_all_open 0
   \<and> sent_where (\<lambda>e. type' e = Some ''message_confirmed'')
        (new_sends hub_two (on_message w_all_open 0 (Some m_hi) hub_two))
       = [(0, confirmation ''msg_5_k3'' ''T'' m_hi)]
   \<and> messagesInMemory (on_message w_all_open 0 (Some m_hi) hub_two)
       = [newMessage_of ''msg_5_k3'' ''T'' m_hi]
   \<and> send_throws w_origin_fails 0
   \<and> new_sends hub_two (on_message w_origin_fails 0 (Some m_hi) hub_two) = []
   \<and> messagesInMemory (on_message w_origin_fails 0 (Some m_hi) hub_two) = []"
proof -
  have a: "type' m_no_content = Some ''new_message''" "\<not> truthy (content m_no_content)"
    by (simp_all add: m_no_content_def no_fields_def truthy_def)
  have b: "parentId m_hi = None" "\<not> send_throws w_all_open 0" "send_throws w_origin_fails 0"
    by (simp_all add: m_hi_def no_fields_def world_simps)
  from intake_validation [of w_all_open 0 m_no_content hub_two]
    intake_validation [of w_all_open 0 m_hi hub_two]
    intake_validation [of w_origin_fails 0 m_hi hub_two] a b m_hi_valid
  show ?thesis
    by (simp add: Let_def world_simps hub_simps messageId_at_def string_of_nat_5)
qed

text \<open>
  C3 as stated fails: a content of three spaces is empty after trimming, and the event is
  confirmed, broadcast and stored.
\<close>

theorem intake_validation_counterexample:
  "trim (the (content m_blank)) = []
   \<and> new_sends hub_two (on_message w_all_open 0 (Some m_blank) hub_two)
     = [(0, confirmation ''msg_5_k3'' ''T'' m_blank), (1, newMessage_of ''msg_5_k3'' ''T'' m_blank)]
   \<and> messagesInMemory (on_message w_all_open 0 (Some m_blank) hub_two)
     = [newMessage_of ''msg_5_k3'' ''T'' m_blank]"
  by (simp add: handler_simps world_simps hub_simps m_blank_def no_fields_def string_of_nat_5
      trim_def is_space_def)

lemma only_evicts_fields:
  "clients h2 = clients h1 \<Longrightarrow> only_evicts w X h h1 \<Longrightarrow> only_evicts w X h h2"
  by (simp add: only_evicts_def)

lemma only_evicts_from:
  "clients h1 = clients h \<Longrightarrow> only_evicts w X h1 h2 \<Longrightarrow> only_evicts w X h h2"
  by (simp add: only_evicts_def)

lemma case_new_message_only_evicts: "only_evicts w {} h (case_new_message w ws message ts h)"
proof (cases "truthy (content message)")
  case False
  then show ?thesis by (simp add: case_new_message_def only_evicts_refl)
next
  case c: True
  show ?thesis
  proof (cases "send_throws w ws")
    case True
    show ?thesis
      unfolding case_new_message_throws [OF c True]
      by (rule only_evicts_fields [OF _ only_evicts_refl]) simp
  next
    case False
    define nm where "nm = newMessage_of (messageId_at w (ticks h)) ts message"
    define hs where "hs = h \<lparr> messagesInMemory := messagesInMemory h @ [nm],
        pendingMessages := AList.update (messageId_at w (ticks h)) nm (pendingMessages h),
        ticks := ticks h + 2,
        sent := sent h @ [(ws, confirmation (messageId_at w (ticks h)) ts message)] \<rparr>"
    have "clients hs = clients h" by (simp add: hs_def)
    then have "only_evicts w {} h (broadcastMessage w nm (Some ws) hs)"
      using registry_after(1) by (rule only_evicts_from)
    then show ?thesis
      unfolding case_new_message_sends [OF c False] Let_def nm_def [symmetric] hs_def [symmetric]
      by (simp add: only_evicts_def)
  qed
qed

lemma dispatch_only_evicts: "only_evicts w {} h (dispatch w ws message ts h)"
proof -
  have "only_evicts w {} h (case_presence_update w ws message ts h)"
    unfolding case_presence_update_def
    by (auto simp add: only_evicts_refl intro: only_evicts_from [OF _ registry_after(1)])
  moreover have "only_evicts w {} h (case_typing_indicator w ws message ts h)"
    unfolding case_typing_indicator_def by (rule registry_after(1))
  ultimately show ?thesis
    unfolding dispatch_def
    by (simp add: case_new_message_only_evicts registry_after(1))
qed

text \<open>
  C9. An event with a truthy type and a truthy user id is dispatched on the hub in which
  the connection is mapped to the event's user id, whatever it was mapped to before and
  whatever the event's type; the other connections keep their mapping. When \<^verbatim>\<open>send\<close> on
  the connection does not throw, the connection is still mapped to that user id after the
  handler.
\<close>

theorem identity_from_messages:
  assumes "truthy (type' message)" and "truthy (userId message)"
  shows "(let u = the (userId message);
              before_dispatch = admitted ws message h;
              h' = on_message w ws (Some message) h
          in h' = dispatch w ws message (toISOString_at w (ticks h)) before_dispatch
             \<and> map_of (clients before_dispatch) ws = Some u
             \<and> (\<forall>c. c \<noteq> ws \<longrightarrow> map_of (clients before_dispatch) c = map_of (clients h) c)
             \<and> (\<not> send_throws w ws \<longrightarrow> map_of (clients h') ws = Some u))"
proof -
  let ?hA = "admitted ws message h"
  have a: "map_of (clients ?hA) ws = Some (the (userId message))"
    and b: "\<forall>c. c \<noteq> ws \<longrightarrow> map_of (clients ?hA) c = map_of (clients h) c"
    by (simp_all add: admitted_def admit_def update_conv')
  have "map_of (clients (dispatch w ws message (toISOString_at w (ticks h)) ?hA)) ws
          = map_of (clients ?hA) ws" if "\<not> send_throws w ws"
    using dispatch_only_evicts that by (rule only_evicts_keeps)
  with a b show ?thesis
    unfolding Let_def on_message_well_formed [OF assms] by simp
qed

text \<open>Connection 1 is registered as bob and sends a typing event as jane.\<close>

theorem identity_from_messages_witness:
  "truthy (type' m_typing) \<and> truthy (userId m_typing)
   \<and> map_of (clients hub_two) 1 = Some ''bob''
   \<and> \<not> send_throws w_all_open 1
   \<and> map_of (clients (on_message w_all_open 1 (Some m_typing) hub_two)) 1 = Some ''jane''"
proof -
  have a: "truthy (type' m_typing)" "truthy (userId m_typing)"
    by (simp_all add: m_typing_def no_fields_def truthy_def)
  have b: "\<not> send_throws w_all_open 1" by (simp add: world_simps)
  have c: "the (userId m_typing) = ''jane''" by (simp add: m_typing_def no_fields_def)
  from identity_from_messages [OF a, where w = w_all_open and ws = 1 and h = hub_two,
      unfolded Let_def] b
  have "map_of (clients (on_message w_all_open 1 (Some m_typing) hub_two)) 1
          = Some (the (userId m_typing))"
    by blast
  with a b c show ?thesis by (simp add: hub_simps)
qed

lemma store_unused_broadcast:
  "broadcastMessage (w \<lparr> durable_append := d \<rparr>) m ex h = broadcastMessage w m ex h"
  "forEach_client (w \<lparr> durable_append := d \<rparr>) m ex cs h = forEach_client w m ex cs h"
  "cleanupClient (w \<lparr> durable_append := d \<rparr>) c h = cleanupClient w c h"
proof (induction w m ex h and w m ex cs h and w c h
       rule: broadcastMessage_forEach_client_cleanupClient.induct)
  case (1 w m excludeWs h)
  then show ?case by (simp add: broadcastMessage.simps)
next
  case (2 w m excludeWs h)
  show ?case by (simp add: forEach_client.simps)
next
  case (3 w m excludeWs c cs h)
  let ?go = "c \<in> fst ` set (clients h) \<and> Some c \<noteq> excludeWs \<and> readyState_open w c"
  let ?mid = "if ?go then (if send_throws w c then cleanupClient w c h
                           else h \<lparr> sent := sent h @ [(c, m)] \<rparr>) else h"
  have "(if c \<in> fst ` set (clients h) \<and> Some c \<noteq> excludeWs
            \<and> readyState_open (w \<lparr> durable_append := d \<rparr>) c
         then (if send_throws (w \<lparr> durable_append := d \<rparr>) c
               then cleanupClient (w \<lparr> durable_append := d \<rparr>) c h
               else h \<lparr> sent := sent h @ [(c, m)] \<rparr>) else h) = ?mid"
    using "3.IH"(1) by auto
  then show ?case
    unfolding forEach_client.simps(2) using "3.IH"(2) by simp
next
  case (4 w c h)
  show ?case
    unfolding cleanupClient.simps [of "w \<lparr> durable_append := d \<rparr>" c h] cleanupClient.simps [of w c h]
    using "4.IH" by (auto simp add: evicted_def split: option.splits)
qed

lemma store_unused:
  "on_message (w \<lparr> durable_append := d \<rparr>) ws parsed h = on_message w ws parsed h"
  by (cases parsed)
     (simp_all add: on_message_def dispatch_def case_new_message_def case_presence_update_def
        case_typing_indicator_def store_unused_broadcast messageId_at_def Let_def)

text \<open>
  C4, amended. A \<^verbatim>\<open>new_message\<close> event passes the checks and \<^verbatim>\<open>ws.send\<close> of the
  confirmation does not throw. The confirmation is sent with the id
  \<^verbatim>\<open>msg_<Date.now()>_<random>\<close> that the hub makes and the hub's own timestamp; every frame
  the handler sends is the presence event of an eviction or carries that id and timestamp;
  and the handler gives the same hub whatever the store's durable-append returns.
\<close>

theorem canonical_id_made_by_hub:
  assumes v: "valid_new_message message" and ok: "\<not> send_throws w ws"
  shows "(let h' = on_message w ws (Some message) h;
              ts = toISOString_at w (ticks h);
              msgId = ''msg_'' @ string_of_nat (Date_now_at w (ticks h + 1)) @ ''_''
                        @ random36_at w (ticks h + 2)
          in (ws, confirmation msgId ts message) \<in> set (new_sends h h')
             \<and> list_all (\<lambda>(c, e). is_offline_notice e
                                  \<or> (id' e = Some msgId \<and> timestamp e = Some ts))
                  (new_sends h h')
             \<and> on_message (w \<lparr> durable_append := d \<rparr>) ws (Some message) h = h')"
proof -
  let ?ts = "toISOString_at w (ticks h)"
  let ?id = "messageId_at w (ticks h + 1)"
  let ?Q = "\<lambda>e. is_offline_notice e \<or> (id' e = Some ?id \<and> timestamp e = Some ?ts)"
  let ?new = "new_sends h (on_message w ws (Some message) h)"
  have id: "?id = ''msg_'' @ string_of_nat (Date_now_at w (ticks h + 1)) @ ''_''
                        @ random36_at w (ticks h + 2)"
    by (simp add: messageId_at_def)
  have P: "\<And>u ts. \<not> (\<lambda>e. \<not> ?Q e) (offline_event u ts)"
    by (simp add: offline_event_is_notice)
  have "sent_where (\<lambda>e. \<not> ?Q e) ?new = []"
    by (subst intake_sends [OF v ok, of "\<lambda>e. \<not> ?Q e", OF P])
       (simp add: sent_where_def copies_def confirmation_def newMessage_of_def)
  then have all: "list_all (\<lambda>(c, e). ?Q e) ?new"
    by (auto simp add: sent_where_def filter_empty_conv list_all_iff)
  have "sent_where (\<lambda>e. type' e = Some ''message_confirmed'') ?new
           = [(ws, confirmation ?id ?ts message)]"
    using v by (subst intake_sends [OF v ok]) (simp_all add: sent_where_def copies_def valid_new_message_def)
  then have "(ws, confirmation ?id ?ts message) \<in> set (sent_where (\<lambda>e. type' e = Some ''message_confirmed'') ?new)"
    by simp
  then have mem: "(ws, confirmation ?id ?ts message) \<in> set ?new"
    by (simp add: sent_where_def)
  show ?thesis
    unfolding Let_def id [symmetric] using all mem store_unused by simp
qed

theorem canonical_id_made_by_hub_witness:
  "valid_new_message m_hi \<and> \<not> send_throws w_all_open 0
   \<and> (0, confirmation ''msg_5_k3'' ''T'' m_hi)
        \<in> set (new_sends hub_two (on_message w_all_open 0 (Some m_hi) hub_two))
   \<and> on_message (w_all_open \<lparr> durable_append := (\<lambda>x. (''2'', ''U'')) \<rparr>) 0 (Some m_hi) hub_two
       = on_message w_all_open 0 (Some m_hi) hub_two"
  using canonical_id_made_by_hub [where message = m_hi and w = w_all_open and ws = 0
      and h = hub_two and d = "\<lambda>x. (''2'', ''U'')"]
  by (simp add: Let_def m_hi_valid world_simps hub_simps string_of_nat_5)

text \<open>
  C4 as stated fails: the store would assign the id \<^verbatim>\<open>1\<close>, and the confirmation and the
  broadcast carry \<^verbatim>\<open>msg_5_k3\<close>.
\<close>

theorem canonical_id_counterexample:
  "valid_new_message m_hi
   \<and> new_sends hub_two (on_message w_all_open 0 (Some m_hi) hub_two)
     = [(0, confirmation ''msg_5_k3'' ''T'' m_hi), (1, newMessage_of ''msg_5_k3'' ''T'' m_hi)]
   \<and> durable_append w_all_open (''hi'', ''jane'', Some ''1'', None, None) = (''1'', ''S'')
   \<and> id' (confirmation ''msg_5_k3'' ''T'' m_hi) = Some ''msg_5_k3''
   \<and> id' (newMessage_of ''msg_5_k3'' ''T'' m_hi) = Some ''msg_5_k3''
   \<and> ''msg_5_k3'' \<noteq> ''1''"
  by (simp add: valid_new_message_def handler_simps world_simps hub_simps m_hi_def no_fields_def
      string_of_nat_5 confirmation_def newMessage_of_def)

lemma hub_ok_init: "hub_ok hub_init"
  by (simp add: hub_ok_def hub_init_def users_truthy_def)

lemma hub_ok_clients: "clients h' = clients h \<Longrightarrow> hub_ok h' = hub_ok h"
  by (simp add: hub_ok_def users_truthy_def)

lemma hub_ok_sent: "hub_ok (h \<lparr> sent := s \<rparr>) = hub_ok h"
  by (rule hub_ok_clients) simp

lemma hub_ok_evicted:
  assumes "hub_ok h"
  shows "hub_ok (evicted w c u h)"
proof -
  have "set (AList.delete c (clients h)) \<subseteq> set (clients h)"
    by (auto simp add: AList.delete_eq)
  with assms show ?thesis
    by (auto simp add: hub_ok_def users_truthy_def evicted_def distinct_delete list_all_iff)
qed

lemma hub_ok_broadcast:
  "hub_ok h \<longrightarrow> hub_ok (broadcastMessage w m ex h)"
  "hub_ok h \<longrightarrow> hub_ok (forEach_client w m ex cs h)"
  "hub_ok h \<longrightarrow> hub_ok (cleanupClient w c h)"
  by (rule hub_rel_induct [where Rel = "\<lambda>h h'. hub_ok h \<longrightarrow> hub_ok h'"];
      simp add: hub_ok_evicted hub_ok_sent)+

lemma set_update_subset: "set (AList.update k v al) \<subseteq> insert (k, v) (set al)"
  by (induction al) auto

lemma hub_ok_admitted:
  assumes "hub_ok h" "truthy (userId message)"
  shows "hub_ok (admitted ws message h)"
proof -
  from assms(2) have "the (userId message) \<noteq> []"
    by (auto simp add: truthy_def split: option.splits)
  with assms(1) set_update_subset [of ws "the (userId message)" "clients h"] show ?thesis
    by (auto simp add: hub_ok_def users_truthy_def admitted_def admit_def distinct_update
        list_all_iff)
qed

lemma hub_ok_dispatch:
  assumes "hub_ok h"
  shows "hub_ok (dispatch w ws message ts h)"
proof -
  have n: "hub_ok (case_new_message w ws message ts h)"
  proof (cases "truthy (content message)")
    case False
    with assms show ?thesis by (simp add: case_new_message_def)
  next
    case c: True
    show ?thesis
    proof (cases "send_throws w ws")
      case True
      show ?thesis
        unfolding case_new_message_throws [OF c True]
        using assms by (subst hub_ok_clients [of _ h]) simp_all
    next
      case False
      show ?thesis
      proof -
        define nm where "nm = newMessage_of (messageId_at w (ticks h)) ts message"
        define hs where "hs = h \<lparr> messagesInMemory := messagesInMemory h @ [nm],
            pendingMessages := AList.update (messageId_at w (ticks h)) nm (pendingMessages h),
            ticks := ticks h + 2,
            sent := sent h @ [(ws, confirmation (messageId_at w (ticks h)) ts message)] \<rparr>"
        have "hub_ok hs" using assms by (subst hub_ok_clients [of _ h]) (simp_all add: hs_def)
        with hub_ok_broadcast(1) have "hub_ok (broadcastMessage w nm (Some ws) hs)" by blast
        then show ?thesis
          unfolding case_new_message_sends [OF c False] Let_def nm_def [symmetric] hs_def [symmetric]
          by (subst hub_ok_clients [of _ "broadcastMessage w nm (Some ws) hs"]) simp_all
      qed
    qed
  qed
  have p: "hub_ok (case_presence_update w ws message ts h)"
  proof -
    have "hub_ok (h \<lparr> userPresenceInMemory := x \<rparr>)" for x
      using assms by (subst hub_ok_clients [of _ h]) simp_all
    with hub_ok_broadcast(1) assms show ?thesis
      unfolding case_presence_update_def by simp
  qed
  have t: "hub_ok (case_typing_indicator w ws message ts h)"
    unfolding case_typing_indicator_def using assms hub_ok_broadcast(1) by simp
  show ?thesis
    unfolding dispatch_def using n p t assms hub_ok_broadcast(1) by simp
qed

lemma hub_ok_on_message: "hub_ok h \<Longrightarrow> hub_ok (on_message w ws parsed h)"
proof (cases parsed)
  case None
  assume "hub_ok h"
  with None show ?thesis by (simp add: on_message_def)
next
  case (Some message)
  assume ok: "hub_ok h"
  show ?thesis
  proof (cases "truthy (type' message) \<and> truthy (userId message)")
    case True
    then show ?thesis
      unfolding Some using on_message_well_formed [of message w ws h]
        hub_ok_dispatch [OF hub_ok_admitted [OF ok]] by simp
  next
    case False
    then have "on_message w ws (Some message) h = h \<lparr> ticks := ticks h + 1 \<rparr>"
      by (auto simp add: on_message_def Let_def)
    with ok Some hub_ok_clients [of "h \<lparr> ticks := ticks h + 1 \<rparr>" h] show ?thesis by simp
  qed
qed

lemma hub_ok_on_close: "hub_ok h \<Longrightarrow> hub_ok (on_close w ws h)"
  using hub_ok_broadcast(3) by (simp add: on_close_def)

end
